theory Spec2Isabelle
  imports Complex_Main "HOL-Library.Multiset"
begin

section \<open>Python values\<close>

text \<open>
  A Python \<open>str\<close> is a sequence of Unicode code points, so a string is a list of
  naturals (one per code point) and \<open>len\<close> is \<open>length\<close>. \<open>str_of\<close> writes an ASCII
  literal. A \<open>bytes\<close> value is a list of naturals below 256.
\<close>

type_synonym pystr = "nat list"

type_synonym pybytes = "nat list"

type_synonym doc = "pystr list list"

definition str_of :: "string \<Rightarrow> pystr" where
  "str_of s = map of_char s"

datatype error =
  UnicodeEncodeError | UnicodeDecodeError | ZeroDivisionError | ValueError | TypeError | KeyError

subsection \<open>\<open>str.encode('utf8')\<close> and \<open>bytes.decode()\<close>\<close>

text \<open>
  The built-in codec, strict error handling: a surrogate (U+D800..U+DFFF) cannot be
  encoded; an incomplete sequence, a stray continuation byte, an overlong form, an encoded
  surrogate or a value past U+10FFFF cannot be decoded.
\<close>

definition utf8_encode_char :: "nat \<Rightarrow> pybytes option" where
  "utf8_encode_char c =
     (if c < 0x80 then Some [c]
      else if c < 0x800 then Some [0xC0 + c div 64, 0x80 + c mod 64]
      else if c < 0x10000 then
        (if 0xD800 \<le> c \<and> c < 0xE000 then None
         else Some [0xE0 + c div 4096, 0x80 + (c div 64) mod 64, 0x80 + c mod 64])
      else if c < 0x110000 then
        Some [0xF0 + c div 262144, 0x80 + (c div 4096) mod 64,
              0x80 + (c div 64) mod 64, 0x80 + c mod 64]
      else None)"

fun utf8_encode :: "pystr \<Rightarrow> pybytes option" where
  "utf8_encode [] = Some []"
| "utf8_encode (c # cs) =
     (case utf8_encode_char c of
        None \<Rightarrow> None
      | Some bs \<Rightarrow> (case utf8_encode cs of None \<Rightarrow> None | Some rest \<Rightarrow> Some (bs @ rest)))"

definition is_cont :: "nat \<Rightarrow> bool" where
  "is_cont b = (0x80 \<le> b \<and> b < 0xC0)"

fun utf8_decode :: "pybytes \<Rightarrow> pystr option" where
  "utf8_decode [] = Some []"
| "utf8_decode (b0 # bs) =
     (if b0 < 0x80 then map_option (Cons b0) (utf8_decode bs)
      else if 0xC2 \<le> b0 \<and> b0 < 0xE0 then
        (case bs of
           b1 # r \<Rightarrow>
             (if is_cont b1
              then map_option (Cons ((b0 - 0xC0) * 64 + (b1 - 0x80))) (utf8_decode r)
              else None)
         | _ \<Rightarrow> None)
      else if 0xE0 \<le> b0 \<and> b0 < 0xF0 then
        (case bs of
           b1 # b2 # r \<Rightarrow>
             (let c = (b0 - 0xE0) * 4096 + (b1 - 0x80) * 64 + (b2 - 0x80)
              in if is_cont b1 \<and> is_cont b2 \<and> 0x800 \<le> c \<and> \<not> (0xD800 \<le> c \<and> c < 0xE000)
                 then map_option (Cons c) (utf8_decode r)
                 else None)
         | _ \<Rightarrow> None)
      else if 0xF0 \<le> b0 \<and> b0 < 0xF5 then
        (case bs of
           b1 # b2 # b3 # r \<Rightarrow>
             (let c = (b0 - 0xF0) * 262144 + (b1 - 0x80) * 4096 + (b2 - 0x80) * 64 + (b3 - 0x80)
              in if is_cont b1 \<and> is_cont b2 \<and> is_cont b3 \<and> 0x10000 \<le> c \<and> c < 0x110000
                 then map_option (Cons c) (utf8_decode r)
                 else None)
         | _ \<Rightarrow> None)
      else None)"

text \<open>
  A slice \<open>xs[:k]\<close>: a negative \<open>k\<close> counts from the end.
\<close>

definition py_take :: "int \<Rightarrow> 'a list \<Rightarrow> 'a list" where
  "py_take k xs = (if 0 \<le> k then take (nat k) xs else take (length xs - nat (- k)) xs)"

text \<open>
  \<open>xs[-n:]\<close> for \<open>n \<ge> 1\<close>: the last \<open>n\<close> elements, the whole list when it is shorter.
\<close>

definition py_last_n :: "nat \<Rightarrow> 'a list \<Rightarrow> 'a list" where
  "py_last_n n xs = drop (length xs - n) xs"

text \<open>\<open>sep.join(xs)\<close>.\<close>

fun join_str :: "pystr \<Rightarrow> pystr list \<Rightarrow> pystr" where
  "join_str sep [] = []"
| "join_str sep [x] = x"
| "join_str sep (x # y # ys) = x @ sep @ join_str sep (y # ys)"

text \<open>
  \<open>s.split(sep)\<close> for a one-character separator: every occurrence splits, so the result
  is never empty and may hold empty strings.
\<close>

fun split_on :: "nat \<Rightarrow> pystr \<Rightarrow> pystr list" where
  "split_on d [] = [[]]"
| "split_on d (c # cs) =
     (if c = d then [] # split_on d cs
      else (case split_on d cs of [] \<Rightarrow> [[c]] | w # ws \<Rightarrow> (c # w) # ws))"

text \<open>
  The characters \<open>\s\<close> matches in a \<open>str\<close> pattern, which are those of \<open>str.isspace\<close>.
\<close>

definition is_space :: "nat \<Rightarrow> bool" where
  "is_space c =
     ((9 \<le> c \<and> c \<le> 13) \<or> (28 \<le> c \<and> c \<le> 32) \<or> c = 133 \<or> c = 160 \<or> c = 5760
      \<or> (8192 \<le> c \<and> c \<le> 8202) \<or> c = 8232 \<or> c = 8233 \<or> c = 8239 \<or> c = 8287
      \<or> c = 12288)"

text \<open>
  \<open>s.split()\<close>: the maximal runs of characters that are not whitespace, read left to
  right; \<open>cur\<close> is the run being read.
\<close>

fun split_ws_from :: "pystr \<Rightarrow> pystr \<Rightarrow> pystr list" where
  "split_ws_from cur [] = (if cur = [] then [] else [cur])"
| "split_ws_from cur (c # cs) =
     (if is_space c then (if cur = [] then split_ws_from [] cs else cur # split_ws_from [] cs)
      else split_ws_from (cur @ [c]) cs)"

definition split_ws :: "pystr \<Rightarrow> pystr list" where
  "split_ws s = split_ws_from [] s"

section \<open>The tokenizer (\<open>rouge/utils/tokenize.py\<close>)\<close>

text \<open>
  \<open>Rouge155Tokenizer\<close>. The stemmer and the stopword remover are \<open>None\<close> or a function,
  as in the source; the sentence splitter is a function. The limits are Python integers.
\<close>

record rouge155_tokenizer =
  byte_limit :: int
  word_limit :: int
  stem :: "(pystr \<Rightarrow> pystr) option"
  remove_stopwords :: "(pystr \<Rightarrow> pystr option) option"
  split_sentences :: "pystr \<Rightarrow> pystr list"

text \<open>
  \<open>_get_stemmer\<close>: the Porter stemmer is a library function and the exception table is
  read from data files, so both are parameters. The table is built by a dictionary
  comprehension, where a later entry for a key replaces an earlier one.
\<close>

definition get_stemmer ::
  "(pystr \<Rightarrow> pystr) \<Rightarrow> (pystr \<times> pystr) list \<Rightarrow> bool \<Rightarrow> (pystr \<Rightarrow> pystr) option" where
  "get_stemmer porter exceptions stem_flag =
     (if \<not> stem_flag then None
      else Some (\<lambda>x. case map_of (rev exceptions) x of
                        Some b \<Rightarrow> porter b
                      | None \<Rightarrow> porter x))"

text \<open>\<open>_get_stopword_remover\<close>: the stopword file's lines are a parameter.\<close>

definition get_stopword_remover ::
  "pystr list \<Rightarrow> bool \<Rightarrow> (pystr \<Rightarrow> pystr option) option" where
  "get_stopword_remover stopwords sw_removal =
     (if \<not> sw_removal then None
      else Some (\<lambda>x. if x \<in> set stopwords then None else Some x))"

text \<open>
  \<open>_get_sentence_splitter\<close> for the modes \<open>None\<close> and \<open>'SPL'\<close>. The mode \<open>'SEE'\<close> extracts
  sentences with a regular expression; it is not translated, and every statement below
  about the tokenizer holds for an arbitrary splitter.
\<close>

definition split_none :: "pystr \<Rightarrow> pystr list" where
  "split_none x = [x]"

definition split_SPL :: "pystr \<Rightarrow> pystr list" where
  "split_SPL x = split_on 10 x"

subsection \<open>\<open>_preprocess_text\<close>\<close>

definition is_alnum_hyphen :: "nat \<Rightarrow> bool" where
  \<comment> \<open>the class \<open>[A-Za-z0-9\-]\<close>\<close>
  "is_alnum_hyphen c =
     ((65 \<le> c \<and> c \<le> 90) \<or> (97 \<le> c \<and> c \<le> 122) \<or> (48 \<le> c \<and> c \<le> 57) \<or> c = 45)"

definition sub_hyphen :: "pystr \<Rightarrow> pystr" where
  \<comment> \<open>\<open>re.sub("-", " - ", text)\<close>\<close>
  "sub_hyphen text = concat (map (\<lambda>c. if c = 45 then [32, 45, 32] else [c]) text)"

definition sub_other :: "pystr \<Rightarrow> pystr" where
  \<comment> \<open>\<open>re.sub(r"[^A-Za-z0-9\-]", " ", text)\<close>\<close>
  "sub_other text = map (\<lambda>c. if is_alnum_hyphen c then c else 32) text"

definition strip_left :: "pystr \<Rightarrow> pystr" where
  \<comment> \<open>\<open>re.sub(r"^\s+", "", text)\<close>\<close>
  "strip_left text = dropWhile is_space text"

definition strip_right :: "pystr \<Rightarrow> pystr" where
  \<comment> \<open>\<open>re.sub(r"\s+$", "", text)\<close>; the text holds no newline at this point\<close>
  "strip_right text = rev (dropWhile is_space (rev text))"

fun collapse_ws :: "pystr \<Rightarrow> pystr" where
  \<comment> \<open>\<open>re.sub(r"\s+", " ", text)\<close>: every maximal run of whitespace becomes one space\<close>
  "collapse_ws [] = []"
| "collapse_ws [c] = (if is_space c then [32] else [c])"
| "collapse_ws (c # d # cs) =
     (if is_space c then (if is_space d then collapse_ws (d # cs) else 32 # collapse_ws (d # cs))
      else c # collapse_ws (d # cs))"

definition preprocess_text :: "pystr \<Rightarrow> pystr" where
  "preprocess_text text =
     collapse_ws (strip_right (strip_left (sub_other (sub_hyphen text))))"

subsection \<open>\<open>_preprocess_word\<close>\<close>

definition py_lower :: "pystr \<Rightarrow> pystr" where
  \<comment> \<open>\<open>word.lower()\<close>; a word that reaches it holds ASCII letters, digits and hyphens only\<close>
  "py_lower w = map (\<lambda>c. if 65 \<le> c \<and> c \<le> 90 then c + 32 else c) w"

definition match_start :: "pystr \<Rightarrow> bool" where
  \<comment> \<open>\<open>re.match("^[a-z0-9\$]", word)\<close>\<close>
  "match_start w =
     (case w of
        [] \<Rightarrow> False
      | c # _ \<Rightarrow> (97 \<le> c \<and> c \<le> 122) \<or> (48 \<le> c \<and> c \<le> 57) \<or> c = 36)"

definition truthy :: "pystr option \<Rightarrow> bool" where
  \<comment> \<open>the truth value of a word that may be \<open>None\<close>: neither \<open>None\<close> nor empty\<close>
  "truthy w = (case w of None \<Rightarrow> False | Some s \<Rightarrow> s \<noteq> [])"

definition preprocess_word :: "rouge155_tokenizer \<Rightarrow> pystr \<Rightarrow> pystr option" where
  "preprocess_word t word =
     (let w0 = py_lower word;
          w1 = (case remove_stopwords t of
                  None \<Rightarrow> Some w0
                | Some f \<Rightarrow> f w0);
          w2 = (case w1 of
                  None \<Rightarrow> None
                | Some s \<Rightarrow> (if s \<noteq> [] \<and> \<not> match_start s then None else Some s))
      in (case stem t of
            None \<Rightarrow> w2
          | Some f \<Rightarrow>
              (case w2 of
                 None \<Rightarrow> None
               | Some s \<Rightarrow> (if s \<noteq> [] then Some (f s) else Some s))))"

subsection \<open>\<open>_truncate_bytes\<close>\<close>

text \<open>
  The inner loop over the words of the sentence that crosses the limit. It returns the
  sentence it appended to the result when it left through \<open>break\<close> (\<open>None\<close> when the loop
  ran to its end and appended nothing) and the byte count.
\<close>

fun truncate_bytes_words ::
  "int \<Rightarrow> int \<Rightarrow> pystr list \<Rightarrow> pystr list \<Rightarrow> error + (pystr list option \<times> int)" where
  "truncate_bytes_words limit byte_len tokenized_sentence [] = Inr (None, byte_len)"
| "truncate_bytes_words limit byte_len tokenized_sentence (word # ws) =
     (case utf8_encode word of
        None \<Rightarrow> Inl UnicodeEncodeError
      | Some bs \<Rightarrow>
          (let new_byte_len = byte_len + int (length bs)
           in if new_byte_len \<ge> limit then
                (case utf8_decode (py_take (limit - byte_len) bs) of
                   None \<Rightarrow> Inl UnicodeDecodeError
                 | Some w \<Rightarrow> Inr (Some (tokenized_sentence @ [w]), limit))
              else truncate_bytes_words limit new_byte_len (tokenized_sentence @ [word]) ws))"

fun truncate_bytes_loop :: "int \<Rightarrow> int \<Rightarrow> doc \<Rightarrow> doc \<Rightarrow> error + doc" where
  "truncate_bytes_loop limit byte_len new_tokenized_text [] = Inr new_tokenized_text"
| "truncate_bytes_loop limit byte_len new_tokenized_text (sentence # ss) =
     (case utf8_encode (concat sentence) of
        None \<Rightarrow> Inl UnicodeEncodeError
      | Some bs \<Rightarrow>
          (let new_byte_len = byte_len + int (length bs)
           in if new_byte_len > limit then
                (case truncate_bytes_words limit byte_len [] sentence of
                   Inl e \<Rightarrow> Inl e
                 | Inr (appended, byte_len') \<Rightarrow>
                     (let new_text = (case appended of
                                        None \<Rightarrow> new_tokenized_text
                                      | Some s \<Rightarrow> new_tokenized_text @ [s])
                      in if byte_len' = limit then Inr new_text
                         else truncate_bytes_loop limit byte_len' new_text ss))
              else
                (if new_byte_len = limit then Inr (new_tokenized_text @ [sentence])
                 else truncate_bytes_loop limit new_byte_len (new_tokenized_text @ [sentence]) ss)))"

definition truncate_bytes :: "rouge155_tokenizer \<Rightarrow> doc \<Rightarrow> error + doc" where
  "truncate_bytes t tokenized_text = truncate_bytes_loop (byte_limit t) 0 [] tokenized_text"

subsection \<open>\<open>_truncate_words\<close>\<close>

fun truncate_words_loop :: "int \<Rightarrow> int \<Rightarrow> doc \<Rightarrow> doc \<Rightarrow> doc" where
  "truncate_words_loop limit word_len new_tokenized_text [] = new_tokenized_text"
| "truncate_words_loop limit word_len new_tokenized_text (sentence # ss) =
     (let new_word_len = word_len + int (length sentence)
      in if new_word_len > limit then
           new_tokenized_text @ [py_take (limit - word_len) sentence]
         else
           (if new_word_len = limit then new_tokenized_text @ [sentence]
            else truncate_words_loop limit new_word_len (new_tokenized_text @ [sentence]) ss))"

definition truncate_words :: "rouge155_tokenizer \<Rightarrow> doc \<Rightarrow> doc" where
  "truncate_words t tokenized_text = truncate_words_loop (word_limit t) 0 [] tokenized_text"

subsection \<open>\<open>tokenize_text\<close>\<close>

definition tokenize_sentence :: "rouge155_tokenizer \<Rightarrow> pystr \<Rightarrow> pystr list" where
  \<comment> \<open>the list comprehension over \<open>sentence.split()\<close>\<close>
  "tokenize_sentence t sentence =
     map (\<lambda>w. the (preprocess_word t w))
       (filter (\<lambda>w. truthy (preprocess_word t w)) (split_ws sentence))"

definition untruncated :: "rouge155_tokenizer \<Rightarrow> pystr \<Rightarrow> doc" where
  \<comment> \<open>the Document before the limits are applied\<close>
  "untruncated t text =
     map (\<lambda>sentence. tokenize_sentence t (preprocess_text sentence)) (split_sentences t text)"

definition tokenize_text :: "rouge155_tokenizer \<Rightarrow> pystr \<Rightarrow> error + doc" where
  "tokenize_text t text =
     (case (if byte_limit t \<noteq> 0 then truncate_bytes t (untruncated t text)
            else Inr (untruncated t text)) of
        Inl e \<Rightarrow> Inl e
      | Inr tokenized_text \<Rightarrow>
          Inr (if word_limit t \<noteq> 0 then truncate_words t tokenized_text else tokenized_text))"

section \<open>The scorer (\<open>rouge/rouge.py\<close>)\<close>

text \<open>
  Scores are Python floats; they are modelled by exact rationals, so a quotient is the exact
  quotient and \<open>round(x, 5)\<close> rounds it to five decimals, a tie going to the even
  neighbour. Python rounds the binary float, so the two can differ where the exact value
  is a decimal tie (1/320 is 0.00313 in Python, 0.00312 here); no statement below evaluates
  a tie. Dividing by zero raises \<open>ZeroDivisionError\<close>.
\<close>

definition round_half_even :: "rat \<Rightarrow> int" where
  "round_half_even x =
     (let f = \<lfloor>x\<rfloor>; d = x - of_int f
      in if d < 1 / 2 then f else if 1 / 2 < d then f + 1 else if even f then f else f + 1)"

definition round5 :: "rat \<Rightarrow> rat" where
  "round5 x = of_int (round_half_even (x * 100000)) / 100000"

subsection \<open>\<open>generate_counter\<close> and \<open>_ngram_tokenize\<close>\<close>

text \<open>
  A \<open>Counter\<close> is a dictionary in insertion order: an association list with one entry
  per distinct key, in the order of first occurrence.
\<close>

type_synonym counter = "(pystr \<times> nat) list"

fun counter_add :: "pystr \<Rightarrow> counter \<Rightarrow> counter" where
  "counter_add k [] = [(k, 1)]"
| "counter_add k ((k', c) # kvs) =
     (if k = k' then (k', c + 1) # kvs else (k', c) # counter_add k kvs)"

definition generate_counter :: "pystr list \<Rightarrow> counter" where
  "generate_counter ngrams = foldl (\<lambda>c k. counter_add k c) [] ngrams"

definition counter_keys :: "counter \<Rightarrow> pystr list" where
  "counter_keys c = map fst c"

definition counter_total :: "counter \<Rightarrow> nat" where
  \<comment> \<open>\<open>sum(counter.values())\<close>\<close>
  "counter_total c = sum_list (map snd c)"

definition counter_get :: "counter \<Rightarrow> pystr \<Rightarrow> nat" where
  \<comment> \<open>\<open>counter[ngram]\<close>; a \<open>Counter\<close> gives 0 for a missing key\<close>
  "counter_get c k = (case map_of c k of None \<Rightarrow> 0 | Some v \<Rightarrow> v)"

definition counter_mem :: "pystr \<Rightarrow> counter \<Rightarrow> bool" where
  \<comment> \<open>\<open>ngram in counter\<close>\<close>
  "counter_mem k c = (k \<in> set (counter_keys c))"

definition ngram_tokenize :: "doc \<Rightarrow> nat \<Rightarrow> pystr list" where
  \<comment> \<open>\<open>range(len(tokenized_text)-n+1)\<close> is empty when the bound is not positive\<close>
  "ngram_tokenize tokenized_sentences n =
     (let tokenized_text = concat tokenized_sentences
      in map (\<lambda>i. join_str [32] (take n (drop i tokenized_text)))
           [0 ..< length tokenized_text + 1 - n])"

subsection \<open>\<open>n_score\<close>\<close>

record scores =
  recall :: rat
  precision :: rat
  fscore :: rat

record incremental_state =
  ref_counters :: "nat \<rightharpoonup> counter list"
  refs_count :: "nat \<rightharpoonup> nat"
  prev_tokens :: "pystr list"

text \<open>
  The \<open>Rouge\<close> object. \<open>tokenizer\<close> is the \<open>tokenize_text\<close> of the tokenizer it was built
  with; \<open>N\<close> is only used as the bound of \<open>range(1, N+1)\<close> and \<open>range(N)\<close>, where a
  negative value behaves as 0; \<open>incremental\<close> is \<open>None\<close> while the dictionary is empty.
\<close>

record rouge =
  tokenizer :: "pystr \<Rightarrow> error + doc"
  N :: nat
  scoring :: pystr
  alpha :: rat
  incremental :: "incremental_state option"

definition matches :: "counter \<Rightarrow> counter \<Rightarrow> counter" where
  \<comment> \<open>the dictionary comprehension over \<open>cand_counter.keys()\<close>\<close>
  "matches ref_counter cand_counter =
     map (\<lambda>ngram. (ngram, min (counter_get ref_counter ngram) (counter_get cand_counter ngram)))
       (filter (\<lambda>ngram. counter_mem ngram ref_counter) (counter_keys cand_counter))"

text \<open>
  The loop over the references: one triple \<open>(cands_count, refs_count, matches_count)\<close> per
  reference, which is \<open>zip\<close> of the three lists the source appends to.
\<close>

definition per_reference :: "nat \<Rightarrow> doc \<Rightarrow> doc list \<Rightarrow> (nat \<times> nat \<times> nat) list" where
  "per_reference n cand_text_tokens ref_texts_tokens =
     (let cand_counter = generate_counter (ngram_tokenize cand_text_tokens n);
          cand_count = counter_total cand_counter
      in map (\<lambda>ref.
                let ref_counter = generate_counter (ngram_tokenize ref n)
                in (cand_count, counter_total ref_counter,
                    counter_total (matches ref_counter cand_counter)))
           ref_texts_tokens)"

text \<open>
  \<open>max(zip(...), key=lambda x: x[2]/x[1])\<close>: the key is computed for every item in order,
  the first item with the greatest key wins, and an empty sequence raises \<open>ValueError\<close>.
\<close>

definition best_key :: "nat \<times> nat \<times> nat \<Rightarrow> error + rat" where
  "best_key x =
     (case x of (c, r, m) \<Rightarrow> if r = 0 then Inl ZeroDivisionError else Inr (of_nat m / of_nat r))"

fun max_from :: "nat \<times> nat \<times> nat \<Rightarrow> rat \<Rightarrow> (nat \<times> nat \<times> nat) list \<Rightarrow> error + nat \<times> nat \<times> nat" where
  "max_from best k [] = Inr best"
| "max_from best k (x # xs) =
     (case best_key x of
        Inl e \<Rightarrow> Inl e
      | Inr kx \<Rightarrow> if k < kx then max_from x kx xs else max_from best k xs)"

definition max_by_key :: "(nat \<times> nat \<times> nat) list \<Rightarrow> error + nat \<times> nat \<times> nat" where
  "max_by_key xs =
     (case xs of
        [] \<Rightarrow> Inl ValueError
      | x # rest \<Rightarrow> (case best_key x of Inl e \<Rightarrow> Inl e | Inr k \<Rightarrow> max_from x k rest))"

definition ratios :: "rat \<Rightarrow> nat \<times> nat \<times> nat \<Rightarrow> error + scores" where
  "ratios a x =
     (case x of (cands_n, refs_n, matches_n) \<Rightarrow>
        (let rec = (if refs_n \<noteq> 0 then of_nat matches_n / of_nat refs_n else 0);
             prec = (if cands_n \<noteq> 0 then of_nat matches_n / of_nat cands_n else 0)
         in if matches_n \<noteq> 0 then
              (if (1 - a) * prec + a * rec = 0 then Inl ZeroDivisionError
               else Inr \<lparr>recall = round5 rec, precision = round5 prec,
                         fscore = round5 ((prec * rec) / ((1 - a) * prec + a * rec))\<rparr>)
            else Inr \<lparr>recall = round5 rec, precision = round5 prec, fscore = 0\<rparr>))"

text \<open>
  The body of the loop over \<open>n\<close>. With a scoring that is neither \<open>"A"\<close> nor \<open>"B"\<close> the three
  counts stay lists: empty lists are false and give zeros, other lists cannot be divided.
\<close>

definition n_score_n :: "rouge \<Rightarrow> nat \<Rightarrow> doc \<Rightarrow> doc list \<Rightarrow> error + scores" where
  "n_score_n r n cand_text_tokens ref_texts_tokens =
     (let counts = per_reference n cand_text_tokens ref_texts_tokens
      in if scoring r = str_of ''A'' then
           ratios (alpha r)
             (sum_list (map fst counts), sum_list (map (fst \<circ> snd) counts),
              sum_list (map (snd \<circ> snd) counts))
         else if scoring r = str_of ''B'' then
           (case max_by_key counts of Inl e \<Rightarrow> Inl e | Inr best \<Rightarrow> ratios (alpha r) best)
         else if counts = [] then Inr \<lparr>recall = 0, precision = 0, fscore = 0\<rparr>
         else Inl TypeError)"

fun n_score_loop :: "rouge \<Rightarrow> doc \<Rightarrow> doc list \<Rightarrow> nat list \<Rightarrow> error + (nat \<times> scores) list" where
  "n_score_loop r cand refs [] = Inr []"
| "n_score_loop r cand refs (n # ns) =
     (case n_score_n r n cand refs of
        Inl e \<Rightarrow> Inl e
      | Inr s \<Rightarrow>
          (case n_score_loop r cand refs ns of
             Inl e \<Rightarrow> Inl e
           | Inr results \<Rightarrow> Inr ((n, s) # results)))"

fun tokenize_all :: "(pystr \<Rightarrow> error + doc) \<Rightarrow> pystr list \<Rightarrow> error + doc list" where
  "tokenize_all tok [] = Inr []"
| "tokenize_all tok (ref # refs) =
     (case tok ref of
        Inl e \<Rightarrow> Inl e
      | Inr d \<Rightarrow> (case tokenize_all tok refs of Inl e \<Rightarrow> Inl e | Inr ds \<Rightarrow> Inr (d # ds)))"

text \<open>
  The result maps the label \<open>ROUGE-n\<close> to its scores; the model keys it by \<open>n\<close>.
\<close>

definition n_score :: "rouge \<Rightarrow> pystr list \<Rightarrow> pystr \<Rightarrow> error + (nat \<times> scores) list" where
  "n_score r ref_texts cand_text =
     (case tokenizer r cand_text of
        Inl e \<Rightarrow> Inl e
      | Inr cand_text_tokens \<Rightarrow>
          (case tokenize_all (tokenizer r) ref_texts of
             Inl e \<Rightarrow> Inl e
           | Inr ref_texts_tokens \<Rightarrow>
               n_score_loop r cand_text_tokens ref_texts_tokens [1 ..< N r + 1]))"

subsection \<open>\<open>reset_incremental\<close>\<close>

fun reset_loop ::
  "(pystr \<Rightarrow> error + doc) \<Rightarrow> pystr list \<Rightarrow> incremental_state \<Rightarrow> nat list
   \<Rightarrow> error + incremental_state" where
  "reset_loop tok ref_texts st [] = Inr st"
| "reset_loop tok ref_texts st (n # ns) =
     (case tokenize_all tok ref_texts of
        Inl e \<Rightarrow> Inl e
      | Inr docs \<Rightarrow>
          (let counters = map (\<lambda>d. generate_counter (ngram_tokenize d n)) docs
           in reset_loop tok ref_texts
                (st\<lparr>ref_counters := (ref_counters st)(n \<mapsto> counters),
                    refs_count := (refs_count st)(n \<mapsto> sum_list (map counter_total counters))\<rparr>)
                ns))"

text \<open>
  The three entries of the dictionary are assigned afresh before the loop. An exception
  leaves the object half updated; the model returns the error alone.
\<close>

definition reset_incremental :: "rouge \<Rightarrow> pystr list \<Rightarrow> error + rouge" where
  "reset_incremental r ref_texts =
     (case reset_loop (tokenizer r) ref_texts
             \<lparr>ref_counters = Map.empty, refs_count = Map.empty,
              prev_tokens = replicate (N r) []\<rparr>
             [1 ..< N r + 1] of
        Inl e \<Rightarrow> Inl e
      | Inr st \<Rightarrow> Inr (r\<lparr>incremental := Some st\<rparr>))"

subsection \<open>\<open>n_score_incremental\<close>\<close>

definition new_ngrams :: "incremental_state \<Rightarrow> nat \<Rightarrow> pystr list" where
  \<comment> \<open>\<open>self._ngram_tokenize([self.incremental['prev_tokens'][-n:]], n)\<close>\<close>
  "new_ngrams st n = ngram_tokenize [py_last_n n (prev_tokens st)] n"

definition count_matches :: "counter list \<Rightarrow> pystr list \<Rightarrow> nat" where
  \<comment> \<open>the two nested loops that add 1 to \<open>matches_count\<close>\<close>
  "count_matches counters ngrams =
     foldl (\<lambda>matches_count ref_counter.
              foldl (\<lambda>m ngram. if counter_mem ngram ref_counter then m + 1 else m)
                matches_count ngrams)
       0 counters"

definition n_score_incremental_n :: "incremental_state \<Rightarrow> nat \<Rightarrow> error + rat" where
  "n_score_incremental_n st n =
     (let ngrams = new_ngrams st n
      in case ref_counters st n of
           None \<Rightarrow> Inl KeyError
         | Some counters \<Rightarrow>
             (let matches_count = count_matches counters ngrams
              in case refs_count st n of
                   None \<Rightarrow> Inl KeyError
                 | Some refs_total \<Rightarrow>
                     if refs_total = 0 then Inl ZeroDivisionError
                     else Inr (of_nat matches_count / of_nat refs_total)))"

fun n_score_incremental_loop ::
  "incremental_state \<Rightarrow> nat list \<Rightarrow> error + (nat \<times> rat option) list" where
  "n_score_incremental_loop st [] = Inr []"
| "n_score_incremental_loop st (n # ns) =
     (case n_score_incremental_n st n of
        Inl e \<Rightarrow> Inl e
      | Inr rec \<Rightarrow>
          (case n_score_incremental_loop st ns of
             Inl e \<Rightarrow> Inl e
           | Inr results \<Rightarrow> Inr ((n, Some rec) # results)))"

text \<open>
  The call returns the recalls (\<open>None\<close> for every \<open>n\<close> when the text has no token) and
  the object with its buffer extended.
\<close>

definition n_score_incremental ::
  "rouge \<Rightarrow> pystr \<Rightarrow> error + (nat \<times> rat option) list \<times> rouge" where
  "n_score_incremental r new_text =
     (case tokenizer r new_text of
        Inl e \<Rightarrow> Inl e
      | Inr d \<Rightarrow>
          (let new_tokens = concat d
           in if new_tokens \<noteq> [] then
                (case incremental r of
                   None \<Rightarrow> Inl KeyError
                 | Some st \<Rightarrow>
                     (let st' = st\<lparr>prev_tokens := prev_tokens st @ new_tokens\<rparr>
                      in case n_score_incremental_loop st' [1 ..< N r + 1] of
                           Inl e \<Rightarrow> Inl e
                         | Inr results \<Rightarrow> Inr (results, r\<lparr>incremental := Some st'\<rparr>)))
              else Inr (map (\<lambda>n. (n, None)) [1 ..< N r + 1], r)))"

subsection \<open>Objects used in the examples\<close>

text \<open>
  \<open>Rouge155Tokenizer(stem=False, sw_removal=False)\<close> with the given limits and line
  splitting, and a \<open>Rouge\<close> built on it with \<open>alpha = 0.5\<close>.
\<close>

definition plain_tokenizer :: "int \<Rightarrow> int \<Rightarrow> rouge155_tokenizer" where
  "plain_tokenizer b l =
     \<lparr>byte_limit = b, word_limit = l, stem = get_stemmer id [] False,
      remove_stopwords = get_stopword_remover [] False, split_sentences = split_SPL\<rparr>"

definition plain_rouge :: "nat \<Rightarrow> string \<Rightarrow> rouge" where
  "plain_rouge n f =
     \<lparr>tokenizer = tokenize_text (plain_tokenizer 0 0), N = n, scoring = str_of f,
      alpha = 1 / 2, incremental = None\<rparr>"

subsection \<open>A caller of the incremental interface\<close>

text \<open>
  The use the docstring of \<open>n_score_incremental\<close> describes: reset on the references, then
  feed the increments of a text one after the other and collect the result of each call.
\<close>

fun feed_increments :: "rouge \<Rightarrow> pystr list \<Rightarrow> error + (nat \<times> rat option) list list" where
  "feed_increments r [] = Inr []"
| "feed_increments r (new_text # rest) =
     (case n_score_incremental r new_text of
        Inl e \<Rightarrow> Inl e
      | Inr (results, r') \<Rightarrow>
          (case feed_increments r' rest of
             Inl e \<Rightarrow> Inl e
           | Inr later \<Rightarrow> Inr (results # later)))"

definition incremental_session ::
  "rouge \<Rightarrow> pystr list \<Rightarrow> pystr list \<Rightarrow> error + (nat \<times> rat option) list list" where
  "incremental_session r ref_texts increments =
     (case reset_incremental r ref_texts of
        Inl e \<Rightarrow> Inl e
      | Inr r' \<Rightarrow> feed_increments r' increments)"

section \<open>Notions used in the statements\<close>

text \<open>
  The match count as the specification words it: the number of new n-grams that are a key
  of at least one reference table.
\<close>

definition spec_union_matches :: "counter list \<Rightarrow> pystr list \<Rightarrow> nat" where
  "spec_union_matches counters ngrams =
     length (filter (\<lambda>ngram. \<exists>ref_counter \<in> set counters. counter_mem ngram ref_counter) ngrams)"

text \<open>
  The UTF-8 byte length of all the tokens of a Document, concatenated with no delimiter
  (\<open>None\<close> when a token cannot be encoded).
\<close>

definition byte_total :: "doc \<Rightarrow> nat option" where
  "byte_total d = map_option length (utf8_encode (concat (concat d)))"

definition ascii :: "pystr \<Rightarrow> bool" where
  "ascii w = list_all (\<lambda>c. c < 128) w"

text \<open>
  The stemmer is a library function and the stopword remover is built from a data file.
  A tokenizer is ASCII preserving when both give an ASCII word (or \<open>None\<close>) for an ASCII
  word, as suffix stripping and the remover of \<open>_get_stopword_remover\<close> do.
\<close>

definition ascii_preserving :: "rouge155_tokenizer \<Rightarrow> bool" where
  "ascii_preserving t =
     ((case stem t of None \<Rightarrow> True | Some f \<Rightarrow> \<forall>w. ascii w \<longrightarrow> ascii (f w))
      \<and> (case remove_stopwords t of
            None \<Rightarrow> True
          | Some f \<Rightarrow> \<forall>w. ascii w \<longrightarrow> (case f w of None \<Rightarrow> True | Some w' \<Rightarrow> ascii w')))"

definition ascii_doc :: "doc \<Rightarrow> bool" where
  "ascii_doc d = list_all (list_all ascii) d"

section \<open>Evaluation on concrete inputs\<close>

lemmas tokenizer_eval =
  str_of_def plain_tokenizer_def get_stemmer_def get_stopword_remover_def
  tokenize_text_def untruncated_def tokenize_sentence_def preprocess_text_def
  preprocess_word_def split_SPL_def split_ws_def sub_hyphen_def sub_other_def strip_left_def
  strip_right_def is_space_def is_alnum_hyphen_def py_lower_def match_start_def truthy_def
  truncate_bytes_def truncate_words_def py_take_def utf8_encode_char_def is_cont_def Let_def

lemmas scorer_eval =
  n_score_def n_score_n_def per_reference_def matches_def
  generate_counter_def counter_keys_def counter_total_def counter_get_def counter_mem_def
  ngram_tokenize_def max_by_key_def best_key_def ratios_def
  reset_incremental_def n_score_incremental_def n_score_incremental_n_def new_ngrams_def
  count_matches_def py_last_n_def Let_def

lemma floor_rat_eq: "of_int k \<le> x \<Longrightarrow> x < of_int k + 1 \<Longrightarrow> \<lfloor>x::rat\<rfloor> = k"
  by (rule floor_unique)

lemma round5_exact: "round5 (of_int k / 100000) = of_int k / 100000"
  by (simp add: round5_def round_half_even_def Let_def)

lemma round5_0: "round5 0 = 0"
  using round5_exact [of 0] by simp

lemma round5_1: "round5 1 = 1"
  using round5_exact [of 100000] by simp

lemma round5_half: "round5 (1 / 2) = 1 / 2"
  using round5_exact [of 50000] by simp

lemma round5_three_fifths: "round5 (3 / 5) = 3 / 5"
  using round5_exact [of 60000] by simp

lemma round5_three_quarters: "round5 (3 / 4) = 3 / 4"
  using round5_exact [of 75000] by simp

lemma round5_two_thirds: "round5 (2 / 3) = 66667 / 100000"
proof -
  have "\<lfloor>200000 / 3 :: rat\<rfloor> = 66666"
    by (rule floor_rat_eq) simp_all
  then show ?thesis
    by (simp add: round5_def round_half_even_def Let_def)
qed

lemmas round5_eval = round5_0 round5_1 round5_half round5_three_fifths round5_three_quarters
  round5_two_thirds

lemma tokens_a: "tokenize_text (plain_tokenizer 0 0) (str_of ''a'') = Inr [[[97]]]"
  by (simp add: tokenizer_eval)

lemma tokens_a_a: "tokenize_text (plain_tokenizer 0 0) (str_of ''a a'') = Inr [[[97], [97]]]"
  by (simp add: tokenizer_eval)

lemma tokens_a_a_a_a:
  "tokenize_text (plain_tokenizer 0 0) (str_of ''a a a a'') = Inr [[[97], [97], [97], [97]]]"
  by (simp add: tokenizer_eval)

lemma tokens_a_a_b: "tokenize_text (plain_tokenizer 0 0) (str_of ''a a b'') = Inr [[[97], [97], [98]]]"
  by (simp add: tokenizer_eval)

lemma tokens_a_b_b: "tokenize_text (plain_tokenizer 0 0) (str_of ''a b b'') = Inr [[[97], [98], [98]]]"
  by (simp add: tokenizer_eval)

lemma tokens_a_b: "tokenize_text (plain_tokenizer 0 0) (str_of ''a b'') = Inr [[[97], [98]]]"
  by (simp add: tokenizer_eval)

lemma tokens_empty: "tokenize_text (plain_tokenizer 0 0) (str_of '''') = Inr [[]]"
  by (simp add: tokenizer_eval)

lemma tokens_a_sp: "tokenize_text (plain_tokenizer 0 0) (str_of ''a '') = Inr [[[97]]]"
  by (simp add: tokenizer_eval)

lemmas tokens_eval = tokens_a_sp tokens_a tokens_a_a tokens_a_a_a_a tokens_a_a_b tokens_a_b_b tokens_a_b
  tokens_empty

lemma plain_rouge_sel [simp]:
  "tokenizer (plain_rouge n f) = tokenize_text (plain_tokenizer 0 0)"
  "N (plain_rouge n f) = n" "scoring (plain_rouge n f) = str_of f"
  "alpha (plain_rouge n f) = 1 / 2" "incremental (plain_rouge n f) = None"
  by (simp_all add: plain_rouge_def)

lemma scoring_A_B [simp]:
  "str_of ''A'' \<noteq> str_of ''B''" "str_of ''B'' \<noteq> str_of ''A''"
  by (simp_all add: str_of_def)

section \<open>A reference without n-grams under scoring B\<close>

text \<open>
  Whenever one reference has no n-gram of the size at hand, the key of \<open>max\<close> divides by
  zero, whatever the other references are.
\<close>

lemma max_from_zero_reference:
  "(c, 0, m) \<in> set xs \<Longrightarrow> max_from best k xs = Inl ZeroDivisionError"
proof (induction xs arbitrary: best k)
  case Nil
  then show ?case by simp
next
  case (Cons x xs)
  show ?case
  proof (cases "best_key x")
    case (Inl e)
    then have "e = ZeroDivisionError"
      by (auto simp: best_key_def split: prod.splits if_splits)
    with Inl show ?thesis by simp
  next
    case (Inr kx)
    then have "x \<noteq> (c, 0, m)"
      by (auto simp: best_key_def)
    with Cons.prems have "(c, 0, m) \<in> set xs" by simp
    then show ?thesis
      using Inr Cons.IH by simp
  qed
qed

lemma max_by_key_zero_reference:
  "(c, 0, m) \<in> set xs \<Longrightarrow> max_by_key xs = Inl ZeroDivisionError"
proof (cases xs)
  case Nil
  assume "(c, 0, m) \<in> set xs"
  with Nil show ?thesis by simp
next
  case (Cons x rest)
  assume mem: "(c, 0, m) \<in> set xs"
  show ?thesis
  proof (cases "best_key x")
    case (Inl e)
    then have "e = ZeroDivisionError"
      by (auto simp: best_key_def split: prod.splits if_splits)
    with Inl Cons show ?thesis by (simp add: max_by_key_def)
  next
    case (Inr kx)
    then have "x \<noteq> (c, 0, m)"
      by (auto simp: best_key_def)
    with mem Cons have "(c, 0, m) \<in> set rest" by simp
    then show ?thesis
      using Inr Cons max_from_zero_reference by (simp add: max_by_key_def)
  qed
qed

text \<open>
  So the references \<open>"a a a a"\<close> and \<open>"a"\<close> score under \<open>"B"\<close> for unigrams, and raise
  as soon as bigrams are asked for: \<open>"a"\<close> has none.
\<close>

lemma best_mode_raises_at_bigrams:
  "n_score (plain_rouge 2 ''B'') [str_of ''a a a a'', str_of ''a''] (str_of ''a a'')
     = Inl ZeroDivisionError"
proof -
  have c1: "per_reference (Suc 0) [[[97], [97]]] [[[[97], [97], [97], [97]]], [[[97]]]]
              = [(2, 4, 2), (2, 1, 1)]"
    by (simp add: scorer_eval)
  have c2: "per_reference 2 [[[97], [97]]] [[[[97], [97], [97], [97]]], [[[97]]]]
              = [(1, 3, 1), (1, 0, 0)]"
    by (simp add: scorer_eval numeral_2_eq_2 numeral_3_eq_3)
  have s1: "n_score_n (plain_rouge 2 ''B'') (Suc 0) [[[97], [97]]] [[[[97], [97], [97], [97]]], [[[97]]]]
              = Inr \<lparr>recall = 1, precision = 1 / 2, fscore = 66667 / 100000\<rparr>"
    using c1 by (simp add: n_score_n_def max_by_key_def best_key_def ratios_def Let_def round5_eval)
  have s2: "n_score_n (plain_rouge 2 ''B'') 2 [[[97], [97]]] [[[[97], [97], [97], [97]]], [[[97]]]]
              = Inl ZeroDivisionError"
    using max_by_key_zero_reference [of 1 0 "[(1, 3, 1), (1, 0, 0)]"] c2
    by (simp add: n_score_n_def Let_def)
  have "[1 ..< 2 + 1] = [Suc 0, 2]"
    by (simp add: upt_rec numeral_2_eq_2)
  then show ?thesis
    using s1 s2 by (simp add: n_score_def tokens_eval)
qed

section \<open>Counting in the incremental path\<close>

text \<open>
  Once the buffer holds \<open>n\<close> tokens, the step looks up one n-gram, the last \<open>n\<close>
  tokens joined, however many tokens the increment added.
\<close>

lemma new_ngrams_single:
  assumes "1 \<le> n" and "n \<le> length (prev_tokens st)"
  shows "new_ngrams st n = [join_str [32] (py_last_n n (prev_tokens st))]"
proof -
  have "length (py_last_n n (prev_tokens st)) = n"
    using assms by (simp add: py_last_n_def)
  then show ?thesis
    by (simp add: new_ngrams_def ngram_tokenize_def)
qed

lemma foldl_count_filter:
  "foldl (\<lambda>m x. if p x then m + 1 else m) (m0::nat) xs = m0 + length (filter p xs)"
  by (induction xs arbitrary: m0) auto

lemma count_matches_from:
  "foldl (\<lambda>matches_count ref_counter.
            foldl (\<lambda>m ngram. if counter_mem ngram ref_counter then m + 1 else m)
              matches_count ngrams) (m0::nat) counters
   = m0 + sum_list (map (\<lambda>ref_counter. length (filter (\<lambda>ngram. counter_mem ngram ref_counter) ngrams)) counters)"
  by (induction counters arbitrary: m0) (simp_all add: foldl_count_filter)

lemma count_matches_sum:
  "count_matches counters ngrams =
     sum_list (map (\<lambda>ref_counter.
                      length (filter (\<lambda>ngram. counter_mem ngram ref_counter) ngrams))
                 counters)"
  by (simp add: count_matches_def count_matches_from)

lemma n_score_incremental_n_value:
  assumes "ref_counters st n = Some cs" and "refs_count st n = Some m" and "m \<noteq> 0"
  shows "n_score_incremental_n st n =
     Inr (of_nat (sum_list (map (\<lambda>ref_counter.
                     length (filter (\<lambda>ngram. counter_mem ngram ref_counter) (new_ngrams st n)))
                   cs)) / of_nat m)"
  using assms by (simp add: n_score_incremental_n_def Let_def count_matches_sum)

lemma n_score_incremental_loop_value:
  assumes "\<forall>n \<in> set ns. ref_counters st n = Some (cs n) \<and> refs_count st n = Some (ms n) \<and> ms n \<noteq> 0"
  shows "n_score_incremental_loop st ns =
     Inr (map (\<lambda>n. (n, Some (of_nat (sum_list (map (\<lambda>ref_counter.
                     length (filter (\<lambda>ngram. counter_mem ngram ref_counter) (new_ngrams st n)))
                   (cs n))) / of_nat (ms n)))) ns)"
  using assms
proof (induction ns)
  case Nil
  show ?case by simp
next
  case (Cons k ks)
  then have k: "ref_counters st k = Some (cs k)" "refs_count st k = Some (ms k)" "ms k \<noteq> 0"
    by simp_all
  show ?case
    using n_score_incremental_n_value [OF k] Cons by simp
qed

section \<open>The state after a reset\<close>

lemma reset_loop_result:
  assumes "tokenize_all tok ref_texts = Inr docs"
  shows "\<exists>st'. reset_loop tok ref_texts st ns = Inr st'
     \<and> prev_tokens st' = prev_tokens st
     \<and> (\<forall>n. ref_counters st' n =
             (if n \<in> set ns then Some (map (\<lambda>d. generate_counter (ngram_tokenize d n)) docs)
              else ref_counters st n))
     \<and> (\<forall>n. refs_count st' n =
             (if n \<in> set ns
              then Some (sum_list (map (\<lambda>d. counter_total (generate_counter (ngram_tokenize d n))) docs))
              else refs_count st n))"
proof (induction ns arbitrary: st)
  case Nil
  show ?case by simp
next
  case (Cons k ks)
  let ?counters = "map (\<lambda>d. generate_counter (ngram_tokenize d k)) docs"
  let ?st = "st\<lparr>ref_counters := (ref_counters st)(k \<mapsto> ?counters),
                 refs_count := (refs_count st)(k \<mapsto> sum_list (map counter_total ?counters))\<rparr>"
  from Cons.IH [of ?st] obtain st' where
    st': "reset_loop tok ref_texts ?st ks = Inr st'"
    and p: "prev_tokens st' = prev_tokens ?st"
    and c: "\<forall>n. ref_counters st' n =
             (if n \<in> set ks then Some (map (\<lambda>d. generate_counter (ngram_tokenize d n)) docs)
              else ref_counters ?st n)"
    and t: "\<forall>n. refs_count st' n =
             (if n \<in> set ks
              then Some (sum_list (map (\<lambda>d. counter_total (generate_counter (ngram_tokenize d n))) docs))
              else refs_count ?st n)"
    by blast
  have "reset_loop tok ref_texts st (k # ks) = Inr st'"
    using assms st' by (simp add: Let_def)
  moreover have "prev_tokens st' = prev_tokens st"
    using p by simp
  moreover have "\<forall>n. ref_counters st' n =
             (if n \<in> set (k # ks) then Some (map (\<lambda>d. generate_counter (ngram_tokenize d n)) docs)
              else ref_counters st n)"
    using c by simp
  moreover have "\<forall>n. refs_count st' n =
             (if n \<in> set (k # ks)
              then Some (sum_list (map (\<lambda>d. counter_total (generate_counter (ngram_tokenize d n))) docs))
              else refs_count st n)"
    using t by (simp add: comp_def)
  ultimately show ?case by blast
qed

section \<open>Counters\<close>

lemma map_of_counter_add:
  "map_of (counter_add k c) g =
     (if g = k then Some (case map_of c k of None \<Rightarrow> 1 | Some v \<Rightarrow> v + 1) else map_of c g)"
  by (induction c) auto

lemma keys_counter_add:
  "map fst (counter_add k c) = (if k \<in> set (map fst c) then map fst c else map fst c @ [k])"
  by (induction c) (force simp: image_iff)+

lemma total_counter_add: "sum_list (map snd (counter_add k c)) = sum_list (map snd c) + 1"
  by (induction c) auto

lemma map_of_counter_fold:
  "map_of (foldl (\<lambda>c k. counter_add k c) c xs) g =
     (if g \<in> set xs
      then Some (count_list xs g + (case map_of c g of None \<Rightarrow> 0 | Some v \<Rightarrow> v))
      else map_of c g)"
proof (induction xs arbitrary: c)
  case Nil
  show ?case by simp
next
  case (Cons x xs)
  show ?case
    by (simp add: Cons.IH map_of_counter_add split: option.splits)
qed

lemma keys_counter_fold:
  "distinct (map fst c) \<Longrightarrow>
     distinct (map fst (foldl (\<lambda>c k. counter_add k c) c xs))
     \<and> set (map fst (foldl (\<lambda>c k. counter_add k c) c xs)) = set (map fst c) \<union> set xs"
proof (induction xs arbitrary: c)
  case Nil
  then show ?case by simp
next
  case (Cons x xs)
  have "distinct (map fst (counter_add x c))"
    using Cons.prems by (simp add: keys_counter_add)
  from Cons.IH [OF this] show ?case
    by (auto simp: keys_counter_add split: if_splits)
qed

lemma total_counter_fold:
  "sum_list (map snd (foldl (\<lambda>c k. counter_add k c) c xs)) = sum_list (map snd c) + length xs"
  by (induction xs arbitrary: c) (simp_all add: total_counter_add)

lemma counter_get_generate: "counter_get (generate_counter xs) g = count_list xs g"
  by (simp add: counter_get_def generate_counter_def map_of_counter_fold count_list_0_iff)

lemma counter_mem_generate: "counter_mem g (generate_counter xs) = (g \<in> set xs)"
  using keys_counter_fold [of "[]" xs]
  by (simp add: counter_mem_def counter_keys_def generate_counter_def)

lemma counter_keys_generate:
  "distinct (counter_keys (generate_counter xs))" "set (counter_keys (generate_counter xs)) = set xs"
  using keys_counter_fold [of "[]" xs]
  by (simp_all add: counter_keys_def generate_counter_def)

lemma counter_total_generate: "counter_total (generate_counter xs) = length xs"
  by (simp add: counter_total_def generate_counter_def total_counter_fold)

lemma matches_total:
  "counter_total (matches (generate_counter ref) (generate_counter cand)) =
     (\<Sum>g \<in> set cand \<inter> set ref. min (count_list ref g) (count_list cand g))"
proof -
  let ?keys = "filter (\<lambda>g. g \<in> set ref) (counter_keys (generate_counter cand))"
  have "counter_total (matches (generate_counter ref) (generate_counter cand)) =
          sum_list (map (\<lambda>g. min (count_list ref g) (count_list cand g)) ?keys)"
    by (simp add: counter_total_def matches_def counter_get_generate counter_mem_generate
        comp_def)
  also have "\<dots> = (\<Sum>g \<in> set ?keys. min (count_list ref g) (count_list cand g))"
    by (rule sum_list_distinct_conv_sum_set) (simp add: counter_keys_generate)
  also have "set ?keys = set cand \<inter> set ref"
    by (auto simp: counter_keys_generate)
  finally show ?thesis .
qed

lemma size_inter_mset:
  "size (mset xs \<inter># mset ys) = (\<Sum>g \<in> set xs \<inter> set ys. min (count_list ys g) (count_list xs g))"
proof -
  have "size (mset xs \<inter># mset ys) = (\<Sum>g \<in> set_mset (mset xs \<inter># mset ys). count (mset xs \<inter># mset ys) g)"
    by (simp add: size_multiset_overloaded_eq)
  also have "\<dots> = (\<Sum>g \<in> set xs \<inter> set ys. min (count_list ys g) (count_list xs g))"
    by (simp add: count_mset min.commute)
  finally show ?thesis .
qed

section \<open>Tokens before truncation\<close>

lemma tokenize_sentence_nonempty: "w \<in> set (tokenize_sentence t s) \<Longrightarrow> w \<noteq> []"
  by (auto simp: tokenize_sentence_def truthy_def split: option.splits)

lemma untruncated_nonempty:
  "s \<in> set (untruncated t text) \<Longrightarrow> w \<in> set s \<Longrightarrow> w \<noteq> []"
  by (auto simp: untruncated_def dest: tokenize_sentence_nonempty)

lemma set_collapse_ws: "set (collapse_ws s) \<subseteq> insert 32 (set s)"
  by (induction s rule: collapse_ws.induct) auto

lemma ascii_sub_other: "ascii (sub_other s)"
  by (auto simp: ascii_def sub_other_def list_all_iff is_alnum_hyphen_def)

lemma ascii_preprocess_text: "ascii (preprocess_text s)"
proof -
  have "set (preprocess_text s) \<subseteq> insert 32 (set (sub_other (sub_hyphen s)))"
    unfolding preprocess_text_def strip_left_def strip_right_def
    using set_collapse_ws [of "rev (dropWhile is_space (rev (dropWhile is_space (sub_other (sub_hyphen s)))))"]
    by (auto dest!: set_dropWhileD)
  then show ?thesis
    using ascii_sub_other [of "sub_hyphen s"]
    by (auto simp: ascii_def list_all_iff)
qed

lemma split_ws_from_chars:
  "\<forall>w \<in> set (split_ws_from cur s). set w \<subseteq> set cur \<union> set s"
proof (induction s arbitrary: cur)
  case Nil
  show ?case by simp
next
  case (Cons c cs)
  show ?case
    using Cons.IH [of "[]"] Cons.IH [of "cur @ [c]"]
    by (auto split: if_splits)
qed

lemma ascii_split_ws: "ascii s \<Longrightarrow> w \<in> set (split_ws s) \<Longrightarrow> ascii w"
  using split_ws_from_chars [of "[]" s]
  by (auto simp: split_ws_def ascii_def list_all_iff)

lemma ascii_py_lower: "ascii w \<Longrightarrow> ascii (py_lower w)"
  by (auto simp: ascii_def py_lower_def list_all_iff)

lemma ascii_preprocess_word:
  assumes "ascii_preserving t" "ascii w" "preprocess_word t w = Some w'"
  shows "ascii w'"
  using assms ascii_py_lower [of w]
  by (auto simp: ascii_preserving_def preprocess_word_def Let_def
      split: option.splits if_splits)

lemma ascii_tokenize_sentence:
  assumes "ascii_preserving t" "ascii s" "w \<in> set (tokenize_sentence t s)"
  shows "ascii w"
proof -
  from assms(3) obtain x where x: "x \<in> set (split_ws s)" "truthy (preprocess_word t x)"
    and w: "w = the (preprocess_word t x)"
    by (auto simp: tokenize_sentence_def)
  from x(2) obtain w' where "preprocess_word t x = Some w'"
    by (auto simp: truthy_def split: option.splits)
  then show ?thesis
    using ascii_preprocess_word [OF assms(1) ascii_split_ws [OF assms(2) x(1)]] w by simp
qed

lemma ascii_untruncated: "ascii_preserving t \<Longrightarrow> ascii_doc (untruncated t text)"
  by (auto simp: ascii_doc_def untruncated_def list_all_iff
      intro: ascii_tokenize_sentence ascii_preprocess_text)

section \<open>The codec on ASCII\<close>

lemma utf8_encode_ascii: "ascii w \<Longrightarrow> utf8_encode w = Some w"
  by (induction w) (auto simp: ascii_def utf8_encode_char_def)

lemma utf8_decode_ascii: "ascii bs \<Longrightarrow> utf8_decode bs = Some bs"
  by (induction bs) (auto simp: ascii_def)

lemma ascii_take: "ascii w \<Longrightarrow> ascii (py_take k w)"
  by (auto simp: ascii_def py_take_def list_all_iff dest: in_set_takeD)

lemma ascii_concat: "list_all ascii ws \<Longrightarrow> ascii (concat ws)"
  by (auto simp: ascii_def list_all_iff)

lemma utf8_encode_nonempty: "utf8_encode w = Some bs \<Longrightarrow> w \<noteq> [] \<Longrightarrow> bs \<noteq> []"
  by (cases w) (auto simp: utf8_encode_char_def split: option.splits if_splits)

lemma utf8_decode_nonempty: "utf8_decode bs = Some w \<Longrightarrow> bs \<noteq> [] \<Longrightarrow> w \<noteq> []"
  by (cases bs) (auto simp: Let_def split: if_splits list.splits)

section \<open>One step of the byte truncation loops\<close>

lemma truncate_bytes_words_stop:
  "utf8_encode word = Some bs \<Longrightarrow> limit \<le> byte_len + int (length bs) \<Longrightarrow>
   utf8_decode (py_take (limit - byte_len) bs) = Some w \<Longrightarrow>
   truncate_bytes_words limit byte_len acc (word # ws) = Inr (Some (acc @ [w]), limit)"
  by simp

lemma truncate_bytes_words_continue:
  "utf8_encode word = Some bs \<Longrightarrow> byte_len + int (length bs) < limit \<Longrightarrow>
   truncate_bytes_words limit byte_len acc (word # ws)
     = truncate_bytes_words limit (byte_len + int (length bs)) (acc @ [word]) ws"
  by simp

lemma truncate_bytes_loop_cut:
  "utf8_encode (concat sentence) = Some bs \<Longrightarrow> limit < byte_len + int (length bs) \<Longrightarrow>
   truncate_bytes_words limit byte_len [] sentence = Inr (Some s, limit) \<Longrightarrow>
   truncate_bytes_loop limit byte_len acc (sentence # ss) = Inr (acc @ [s])"
  by simp

lemma truncate_bytes_loop_uncut:
  "utf8_encode (concat sentence) = Some bs \<Longrightarrow> limit < byte_len + int (length bs) \<Longrightarrow>
   truncate_bytes_words limit byte_len [] sentence = Inr (None, bl) \<Longrightarrow> bl \<noteq> limit \<Longrightarrow>
   truncate_bytes_loop limit byte_len acc (sentence # ss) = truncate_bytes_loop limit bl acc ss"
  by simp

lemma truncate_bytes_loop_exact:
  "utf8_encode (concat sentence) = Some bs \<Longrightarrow> byte_len + int (length bs) = limit \<Longrightarrow>
   truncate_bytes_loop limit byte_len acc (sentence # ss) = Inr (acc @ [sentence])"
  by simp

lemma truncate_bytes_loop_whole:
  "utf8_encode (concat sentence) = Some bs \<Longrightarrow> byte_len + int (length bs) < limit \<Longrightarrow>
   truncate_bytes_loop limit byte_len acc (sentence # ss)
     = truncate_bytes_loop limit (byte_len + int (length bs)) (acc @ [sentence]) ss"
  by simp

lemma truncate_bytes_loop_Inr_encodes:
  "truncate_bytes_loop limit byte_len acc (sentence # ss) = Inr d' \<Longrightarrow>
   \<exists>bs. utf8_encode (concat sentence) = Some bs"
  by (cases "utf8_encode (concat sentence)") simp_all

lemma truncate_bytes_loop_Inr_words:
  "truncate_bytes_loop limit byte_len acc (sentence # ss) = Inr d' \<Longrightarrow>
   utf8_encode (concat sentence) = Some bs \<Longrightarrow> limit < byte_len + int (length bs) \<Longrightarrow>
   \<exists>app bl. truncate_bytes_words limit byte_len [] sentence = Inr (app, bl)"
  by (cases "truncate_bytes_words limit byte_len [] sentence") auto

section \<open>Byte truncation keeps tokens non-empty\<close>

lemma py_take_nonempty: "0 < k \<Longrightarrow> xs \<noteq> [] \<Longrightarrow> py_take k xs \<noteq> []"
  by (simp add: py_take_def)

lemma truncate_bytes_words_nonempty:
  assumes "truncate_bytes_words limit byte_len acc ws = Inr (app, byte_len')"
    and "byte_len < limit"
    and "\<forall>w \<in> set ws. w \<noteq> []"
    and "\<forall>w \<in> set acc. w \<noteq> []"
  shows "case app of
           None \<Rightarrow> byte_len' < limit
         | Some s \<Rightarrow> byte_len' = limit \<and> (\<forall>w \<in> set s. w \<noteq> [])"
  using assms
proof (induction ws arbitrary: byte_len acc)
  case Nil
  then show ?case by simp
next
  case (Cons word ws)
  from Cons.prems(1) obtain bs where bs: "utf8_encode word = Some bs"
    by (cases "utf8_encode word") simp_all
  have bs_ne: "bs \<noteq> []"
    using bs Cons.prems(3) utf8_encode_nonempty by auto
  show ?case
  proof (cases "limit \<le> byte_len + int (length bs)")
    case True
    with Cons.prems(1) bs obtain w where
      w: "utf8_decode (py_take (limit - byte_len) bs) = Some w"
      by (cases "utf8_decode (py_take (limit - byte_len) bs)") simp_all
    have res: "app = Some (acc @ [w])" "byte_len' = limit"
      using truncate_bytes_words_stop [OF bs True w, of acc ws] Cons.prems(1) by simp_all
    have "py_take (limit - byte_len) bs \<noteq> []"
      using Cons.prems(2) bs_ne by (simp add: py_take_nonempty)
    then have "w \<noteq> []"
      using w utf8_decode_nonempty by blast
    then show ?thesis
      using res Cons.prems(4) by simp
  next
    case False
    then have lt: "byte_len + int (length bs) < limit" by simp
    have "truncate_bytes_words limit (byte_len + int (length bs)) (acc @ [word]) ws
         = Inr (app, byte_len')"
      using truncate_bytes_words_continue [OF bs lt, of acc ws] Cons.prems(1) by simp
    then show ?thesis
      using Cons.IH [of "byte_len + int (length bs)" "acc @ [word]"] lt Cons.prems(3,4)
      by simp
  qed
qed

lemma truncate_bytes_loop_nonempty:
  assumes "truncate_bytes_loop limit byte_len acc d = Inr d'"
    and "byte_len < limit"
    and "\<forall>s \<in> set d. \<forall>w \<in> set s. w \<noteq> []"
    and "\<forall>s \<in> set acc. \<forall>w \<in> set s. w \<noteq> []"
  shows "\<forall>s \<in> set d'. \<forall>w \<in> set s. w \<noteq> []"
  using assms
proof (induction d arbitrary: byte_len acc)
  case Nil
  then show ?case by simp
next
  case (Cons sentence ss)
  from truncate_bytes_loop_Inr_encodes [OF Cons.prems(1)]
  obtain bs where bs: "utf8_encode (concat sentence) = Some bs" by blast
  have sent: "\<forall>w \<in> set sentence. w \<noteq> []" and rest: "\<forall>s \<in> set ss. \<forall>w \<in> set s. w \<noteq> []"
    using Cons.prems(3) by simp_all
  consider (cut) "limit < byte_len + int (length bs)"
    | (exact) "byte_len + int (length bs) = limit"
    | (whole) "byte_len + int (length bs) < limit"
    by linarith
  then show ?case
  proof cases
    case cut
    from truncate_bytes_loop_Inr_words [OF Cons.prems(1) bs cut]
    obtain app bl where wl: "truncate_bytes_words limit byte_len [] sentence = Inr (app, bl)"
      by blast
    have inv: "case app of
                 None \<Rightarrow> bl < limit
               | Some s \<Rightarrow> bl = limit \<and> (\<forall>w \<in> set s. w \<noteq> [])"
      using truncate_bytes_words_nonempty [OF wl Cons.prems(2)] sent by simp
    show ?thesis
    proof (cases app)
      case None
      with inv have bl: "bl < limit" by simp
      have "truncate_bytes_loop limit bl acc ss = Inr d'"
        using truncate_bytes_loop_uncut [OF bs cut, of bl acc ss] wl None bl Cons.prems(1)
        by simp
      then show ?thesis
        using Cons.IH [of bl acc] bl rest Cons.prems(4) by simp
    next
      case (Some s)
      with inv have bl: "bl = limit" and s: "\<forall>w \<in> set s. w \<noteq> []" by simp_all
      have "d' = acc @ [s]"
        using truncate_bytes_loop_cut [OF bs cut, of s acc ss] wl Some bl Cons.prems(1)
        by simp
      then show ?thesis
        using s Cons.prems(4) by auto
    qed
  next
    case exact
    have "d' = acc @ [sentence]"
      using truncate_bytes_loop_exact [OF bs exact, of acc ss] Cons.prems(1) by simp
    then show ?thesis
      using sent Cons.prems(4) by auto
  next
    case whole
    have "truncate_bytes_loop limit (byte_len + int (length bs)) (acc @ [sentence]) ss = Inr d'"
      using truncate_bytes_loop_whole [OF bs whole, of acc ss] Cons.prems(1) by simp
    then show ?thesis
      using Cons.IH [of "byte_len + int (length bs)" "acc @ [sentence]"] whole rest sent
        Cons.prems(4)
      by simp
  qed
qed

section \<open>Word truncation keeps tokens\<close>

lemma set_py_take: "set (py_take k xs) \<subseteq> set xs"
  by (auto simp: py_take_def dest: in_set_takeD)

lemma truncate_words_loop_tokens:
  "\<forall>s \<in> set (truncate_words_loop limit word_len acc d).
     \<exists>s' \<in> set acc \<union> set d. set s \<subseteq> set s'"
proof (induction d arbitrary: word_len acc)
  case Nil
  show ?case by auto
next
  case (Cons sentence ss)
  show ?case
    using Cons.IH [of "word_len + int (length sentence)" "acc @ [sentence]"]
      set_py_take [of "limit - word_len" sentence]
    by (auto simp: Let_def)
qed

lemma truncate_words_tokens:
  "s \<in> set (truncate_words t d) \<Longrightarrow> w \<in> set s \<Longrightarrow> \<exists>s' \<in> set d. w \<in> set s'"
  using truncate_words_loop_tokens [of "word_limit t" 0 "[]" d]
  by (auto simp: truncate_words_def)

section \<open>Byte truncation of ASCII Documents\<close>

lemma truncate_bytes_loop_cut_step:
  "utf8_encode (concat sentence) = Some bs \<Longrightarrow> limit < byte_len + int (length bs) \<Longrightarrow>
   truncate_bytes_words limit byte_len [] sentence = Inr (app, bl) \<Longrightarrow>
   truncate_bytes_loop limit byte_len acc (sentence # ss) =
     (if bl = limit then Inr (case app of None \<Rightarrow> acc | Some s \<Rightarrow> acc @ [s])
      else truncate_bytes_loop limit bl (case app of None \<Rightarrow> acc | Some s \<Rightarrow> acc @ [s]) ss)"
  by (simp add: Let_def)

lemma truncate_bytes_words_ascii:
  assumes "list_all ascii ws" and "list_all ascii acc"
  shows "\<exists>app bl. truncate_bytes_words limit byte_len acc ws = Inr (app, bl)
           \<and> (case app of None \<Rightarrow> True | Some s \<Rightarrow> list_all ascii s)"
  using assms
proof (induction ws arbitrary: byte_len acc)
  case Nil
  show ?case by simp
next
  case (Cons word ws)
  then have word: "ascii word" and ws: "list_all ascii ws" by simp_all
  have enc: "utf8_encode word = Some word"
    using word by (rule utf8_encode_ascii)
  show ?case
  proof (cases "limit \<le> byte_len + int (length word)")
    case True
    have dec: "utf8_decode (py_take (limit - byte_len) word) = Some (py_take (limit - byte_len) word)"
      using word by (simp add: utf8_decode_ascii ascii_take)
    show ?thesis
      using truncate_bytes_words_stop [OF enc True dec, of acc ws] word Cons.prems(2)
      by (simp add: ascii_take)
  next
    case False
    then have lt: "byte_len + int (length word) < limit" by simp
    show ?thesis
      using truncate_bytes_words_continue [OF enc lt, of acc ws]
        Cons.IH [of "acc @ [word]" "byte_len + int (length word)"] ws word Cons.prems(2)
      by simp
  qed
qed

lemma ascii_doc_simps [simp]:
  "ascii_doc []" "ascii_doc (s # d) = (list_all ascii s \<and> ascii_doc d)"
  "ascii_doc (d @ d') = (ascii_doc d \<and> ascii_doc d')"
  by (simp_all add: ascii_doc_def)

lemma truncate_bytes_loop_ascii:
  assumes "ascii_doc d" and "ascii_doc acc"
  shows "\<exists>d'. truncate_bytes_loop limit byte_len acc d = Inr d' \<and> ascii_doc d'"
  using assms
proof (induction d arbitrary: byte_len acc)
  case Nil
  then show ?case by simp
next
  case (Cons sentence ss)
  then have sent: "list_all ascii sentence" and rest: "ascii_doc ss" by simp_all
  have enc: "utf8_encode (concat sentence) = Some (concat sentence)"
    using sent by (simp add: utf8_encode_ascii ascii_concat)
  consider (cut) "limit < byte_len + int (length (concat sentence))"
    | (exact) "byte_len + int (length (concat sentence)) = limit"
    | (whole) "byte_len + int (length (concat sentence)) < limit"
    by linarith
  then show ?case
  proof cases
    case cut
    from truncate_bytes_words_ascii [OF sent, of "[]" limit byte_len]
    obtain app bl where wl: "truncate_bytes_words limit byte_len [] sentence = Inr (app, bl)"
      and app: "case app of None \<Rightarrow> True | Some s \<Rightarrow> list_all ascii s"
      by auto
    let ?acc = "case app of None \<Rightarrow> acc | Some s \<Rightarrow> acc @ [s]"
    have acc': "ascii_doc ?acc"
      using app Cons.prems(2) by (cases app) simp_all
    show ?thesis
      using truncate_bytes_loop_cut_step [OF enc cut wl, of acc ss]
        Cons.IH [OF rest acc', of bl] acc'
      by (cases "bl = limit") simp_all
  next
    case exact
    show ?thesis
      using truncate_bytes_loop_exact [OF enc exact, of acc ss] sent Cons.prems(2) by simp
  next
    case whole
    have "ascii_doc (acc @ [sentence])"
      using sent Cons.prems(2) by simp
    from Cons.IH [OF rest this, of "byte_len + int (length (concat sentence))"]
    show ?thesis
      using truncate_bytes_loop_whole [OF enc whole, of acc ss] by simp
  qed
qed

lemma truncate_bytes_words_length:
  assumes "list_all ascii ws" and "byte_len < limit"
    and "limit \<le> byte_len + int (length (concat ws))"
  shows "\<exists>s. truncate_bytes_words limit byte_len acc ws = Inr (Some s, limit)
           \<and> int (length (concat s)) = int (length (concat acc)) + (limit - byte_len)"
  using assms
proof (induction ws arbitrary: byte_len acc)
  case Nil
  then show ?case by simp
next
  case (Cons word ws)
  then have word: "ascii word" and ws: "list_all ascii ws" by simp_all
  have enc: "utf8_encode word = Some word"
    using word by (rule utf8_encode_ascii)
  show ?case
  proof (cases "limit \<le> byte_len + int (length word)")
    case True
    have k: "0 \<le> limit - byte_len" "nat (limit - byte_len) \<le> length word"
      using True Cons.prems(2) by simp_all
    have tk: "py_take (limit - byte_len) word = take (nat (limit - byte_len)) word"
      using k by (simp add: py_take_def)
    have dec: "utf8_decode (py_take (limit - byte_len) word) = Some (take (nat (limit - byte_len)) word)"
      using word utf8_decode_ascii [OF ascii_take [OF word, of "limit - byte_len"]] tk by simp
    have "int (length (concat (acc @ [take (nat (limit - byte_len)) word])))
            = int (length (concat acc)) + (limit - byte_len)"
      using k by simp
    then show ?thesis
      using truncate_bytes_words_stop [OF enc True dec, of acc ws] by simp
  next
    case False
    then have lt: "byte_len + int (length word) < limit" by simp
    have le: "limit \<le> (byte_len + int (length word)) + int (length (concat ws))"
      using Cons.prems(3) by simp
    from Cons.IH [OF ws lt le, of "acc @ [word]"]
    show ?thesis
      using truncate_bytes_words_continue [OF enc lt, of acc ws] by auto
  qed
qed

lemma truncate_bytes_loop_length:
  assumes "ascii_doc d" and "byte_len < limit"
    and "int (length (concat (concat acc))) = byte_len"
  shows "\<exists>d'. truncate_bytes_loop limit byte_len acc d = Inr d'
           \<and> int (length (concat (concat d')))
               = min limit (byte_len + int (length (concat (concat d))))"
  using assms
proof (induction d arbitrary: byte_len acc)
  case Nil
  then show ?case by simp
next
  case (Cons sentence ss)
  then have sent: "list_all ascii sentence" and rest: "ascii_doc ss" by simp_all
  have enc: "utf8_encode (concat sentence) = Some (concat sentence)"
    using sent by (simp add: utf8_encode_ascii ascii_concat)
  consider (cut) "limit < byte_len + int (length (concat sentence))"
    | (exact) "byte_len + int (length (concat sentence)) = limit"
    | (whole) "byte_len + int (length (concat sentence)) < limit"
    by linarith
  then show ?case
  proof cases
    case cut
    then have le: "limit \<le> byte_len + int (length (concat sentence))" by simp
    from truncate_bytes_words_length [OF sent Cons.prems(2) le, of "[]"]
    obtain s where wl: "truncate_bytes_words limit byte_len [] sentence = Inr (Some s, limit)"
      and len: "int (length (concat s)) = limit - byte_len"
      by auto
    have "int (length (concat (concat (acc @ [s])))) = limit"
      using len Cons.prems(3) by simp
    moreover have "min limit (byte_len + int (length (concat (concat (sentence # ss))))) = limit"
      using cut by simp
    ultimately show ?thesis
      using truncate_bytes_loop_cut [OF enc cut wl, of acc ss] by simp
  next
    case exact
    have "int (length (concat (concat (acc @ [sentence])))) = limit"
      using exact Cons.prems(3) by simp
    moreover have "min limit (byte_len + int (length (concat (concat (sentence # ss))))) = limit"
      using exact by simp
    ultimately show ?thesis
      using truncate_bytes_loop_exact [OF enc exact, of acc ss] by simp
  next
    case whole
    have inv: "int (length (concat (concat (acc @ [sentence]))))
                 = byte_len + int (length (concat sentence))"
      using Cons.prems(3) by simp
    from Cons.IH [OF rest whole inv]
    show ?thesis
      using truncate_bytes_loop_whole [OF enc whole, of acc ss] by (simp add: add.assoc)
  qed
qed

lemma byte_total_ascii: "ascii_doc d \<Longrightarrow> byte_total d = Some (length (concat (concat d)))"
proof -
  assume "ascii_doc d"
  then have "ascii (concat (concat d))"
    by (auto simp: ascii_doc_def ascii_def list_all_iff)
  then show ?thesis
    by (simp add: byte_total_def utf8_encode_ascii)
qed

lemma ascii_truncate_words: "ascii_doc d \<Longrightarrow> ascii_doc (truncate_words t d)"
  using truncate_words_tokens [of _ t d]
  by (auto simp: ascii_doc_def list_all_iff) blast

lemma ascii_preserving_built:
  assumes "\<forall>w. ascii w \<longrightarrow> ascii (porter w)" and "\<forall>b \<in> snd ` set exceptions. ascii b"
  shows "ascii_preserving
           \<lparr>byte_limit = b, word_limit = l, stem = get_stemmer porter exceptions m,
            remove_stopwords = get_stopword_remover stopwords s, split_sentences = splitter\<rparr>"
proof -
  have "ascii (porter x)" if "map_of (rev exceptions) k = Some x" for k x
  proof -
    from that have "x \<in> snd ` set exceptions"
      by (auto dest!: map_of_SomeD intro: rev_image_eqI)
    with assms show ?thesis by blast
  qed
  then show ?thesis
    using assms(1)
    by (auto simp: ascii_preserving_def get_stemmer_def get_stopword_remover_def
        split: option.splits)
qed

lemma ascii_preserving_plain: "ascii_preserving (plain_tokenizer b l)"
  by (simp add: ascii_preserving_def plain_tokenizer_def get_stemmer_def
      get_stopword_remover_def)

lemma truncate_bytes_words_cut_token:
  assumes "list_all ascii ws" and "byte_len < limit"
    and "limit \<le> byte_len + int (length (concat ws))"
  shows "\<exists>pre w post. ws = pre @ w # post
           \<and> byte_len + int (length (concat pre)) < limit
           \<and> limit \<le> byte_len + int (length (concat pre)) + int (length w)
           \<and> truncate_bytes_words limit byte_len acc ws
               = Inr (Some (acc @ pre @ [take (nat (limit - byte_len - int (length (concat pre)))) w]),
                      limit)"
  using assms
proof (induction ws arbitrary: byte_len acc)
  case Nil
  then show ?case by simp
next
  case (Cons word ws)
  then have word: "ascii word" and ws: "list_all ascii ws" by simp_all
  have enc: "utf8_encode word = Some word"
    using word by (rule utf8_encode_ascii)
  show ?case
  proof (cases "limit \<le> byte_len + int (length word)")
    case True
    have k: "0 \<le> limit - byte_len"
      using Cons.prems(2) by simp
    have tk: "py_take (limit - byte_len) word = take (nat (limit - byte_len)) word"
      using k by (simp add: py_take_def)
    have dec: "utf8_decode (py_take (limit - byte_len) word) = Some (take (nat (limit - byte_len)) word)"
      using utf8_decode_ascii [OF ascii_take [OF word, of "limit - byte_len"]] tk by simp
    have "truncate_bytes_words limit byte_len acc (word # ws)
            = Inr (Some (acc @ [] @ [take (nat (limit - byte_len - int (length (concat ([]::pystr list))))) word]),
                   limit)"
      using truncate_bytes_words_stop [OF enc True dec, of acc ws] by simp
    moreover have "word # ws = [] @ word # ws" by simp
    moreover have "byte_len + int (length (concat ([]::pystr list))) < limit"
      using Cons.prems(2) by simp
    moreover have "limit \<le> byte_len + int (length (concat ([]::pystr list))) + int (length word)"
      using True by simp
    ultimately show ?thesis by blast
  next
    case False
    then have lt: "byte_len + int (length word) < limit" by simp
    have le: "limit \<le> (byte_len + int (length word)) + int (length (concat ws))"
      using Cons.prems(3) by simp
    from Cons.IH [OF ws lt le, of "acc @ [word]"]
    obtain pre w post where ws_eq: "ws = pre @ w # post"
      and b1: "byte_len + int (length word) + int (length (concat pre)) < limit"
      and b2: "limit \<le> byte_len + int (length word) + int (length (concat pre)) + int (length w)"
      and res: "truncate_bytes_words limit (byte_len + int (length word)) (acc @ [word]) ws
               = Inr (Some ((acc @ [word]) @ pre @
                        [take (nat (limit - (byte_len + int (length word)) - int (length (concat pre)))) w]),
                      limit)"
      by blast
    have "word # ws = (word # pre) @ w # post"
      using ws_eq by simp
    moreover have "byte_len + int (length (concat (word # pre))) < limit"
      using b1 by simp
    moreover have "limit \<le> byte_len + int (length (concat (word # pre))) + int (length w)"
      using b2 by simp
    moreover have "truncate_bytes_words limit byte_len acc (word # ws)
               = Inr (Some (acc @ (word # pre) @
                        [take (nat (limit - byte_len - int (length (concat (word # pre))))) w]),
                      limit)"
      using truncate_bytes_words_continue [OF enc lt, of acc ws] res
      by (simp add: algebra_simps)
    ultimately show ?thesis by blast
  qed
qed

lemma truncate_bytes_loop_cut_token:
  assumes "ascii_doc d" and "\<forall>s \<in> set d. \<forall>w \<in> set s. w \<noteq> []"
    and "byte_len < limit"
    and "limit \<le> byte_len + int (length (concat (concat d)))"
  shows "\<exists>before s after pre w post. d = before @ s # after \<and> s = pre @ w # post
           \<and> byte_len + int (length (concat (concat (before @ [pre])))) < limit
           \<and> limit \<le> byte_len + int (length (concat (concat (before @ [pre])))) + int (length w)
           \<and> truncate_bytes_loop limit byte_len acc d
               = Inr (acc @ before @
                   [pre @ [take (nat (limit - byte_len
                                      - int (length (concat (concat (before @ [pre])))))) w]])"
  using assms
proof (induction d arbitrary: byte_len acc)
  case Nil
  then show ?case by simp
next
  case (Cons sentence ss)
  then have sent: "list_all ascii sentence" and rest: "ascii_doc ss" by simp_all
  have ne: "\<forall>w \<in> set sentence. w \<noteq> []" and ne_rest: "\<forall>s \<in> set ss. \<forall>w \<in> set s. w \<noteq> []"
    using Cons.prems(2) by simp_all
  have enc: "utf8_encode (concat sentence) = Some (concat sentence)"
    using sent by (simp add: utf8_encode_ascii ascii_concat)
  consider (cut) "limit < byte_len + int (length (concat sentence))"
    | (exact) "byte_len + int (length (concat sentence)) = limit"
    | (whole) "byte_len + int (length (concat sentence)) < limit"
    by linarith
  then show ?case
  proof cases
    case cut
    then have le: "limit \<le> byte_len + int (length (concat sentence))" by simp
    from truncate_bytes_words_cut_token [OF sent Cons.prems(3) le, of "[]"]
    obtain pre w post where s_eq: "sentence = pre @ w # post"
      and b1: "byte_len + int (length (concat pre)) < limit"
      and b2: "limit \<le> byte_len + int (length (concat pre)) + int (length w)"
      and res: "truncate_bytes_words limit byte_len [] sentence
                  = Inr (Some (pre @ [take (nat (limit - byte_len - int (length (concat pre)))) w]), limit)"
      by auto
    have "sentence # ss = [] @ sentence # ss" by simp
    moreover have "byte_len + int (length (concat (concat ([] @ [pre])))) < limit"
      using b1 by simp
    moreover have "limit \<le> byte_len + int (length (concat (concat ([] @ [pre])))) + int (length w)"
      using b2 by simp
    moreover have "truncate_bytes_loop limit byte_len acc (sentence # ss)
               = Inr (acc @ [] @
                   [pre @ [take (nat (limit - byte_len
                                      - int (length (concat (concat ([] @ [pre])))))) w]])"
      using truncate_bytes_loop_cut [OF enc cut res, of acc ss] by simp
    ultimately show ?thesis
      using s_eq by blast
  next
    case exact
    have "concat sentence \<noteq> []"
      using exact Cons.prems(3) by auto
    then have sne: "sentence \<noteq> []" by auto
    then have s_eq: "sentence = butlast sentence @ last sentence # []"
      by simp
    have "last sentence \<noteq> []"
      using ne sne by simp
    then have lw: "0 < length (last sentence)"
      by simp
    have len: "length (concat sentence)
                 = length (concat (butlast sentence)) + length (last sentence)"
      using arg_cong [OF s_eq, of "\<lambda>x. length (concat x)"] by simp
    have b1: "byte_len + int (length (concat (concat ([] @ [butlast sentence])))) < limit"
    proof -
      have "int (length (concat sentence))
              = int (length (concat (butlast sentence))) + int (length (last sentence))"
        using len by simp
      moreover have "0 < int (length (last sentence))"
        using lw by linarith
      ultimately have "byte_len + int (length (concat (butlast sentence))) < limit"
        using exact by linarith
      then show ?thesis by simp
    qed
    have b2: "limit \<le> byte_len + int (length (concat (concat ([] @ [butlast sentence]))))
                        + int (length (last sentence))"
      using exact len by simp
    have "take (nat (limit - byte_len
                      - int (length (concat (concat ([] @ [butlast sentence])))))) (last sentence)
            = last sentence"
      using exact len by simp
    then have "truncate_bytes_loop limit byte_len acc (sentence # ss)
               = Inr (acc @ [] @
                   [butlast sentence @ [take (nat (limit - byte_len
                      - int (length (concat (concat ([] @ [butlast sentence])))))) (last sentence)]])"
      using truncate_bytes_loop_exact [OF enc exact, of acc ss] sne by simp
    moreover have "sentence # ss = [] @ sentence # ss" by simp
    ultimately show ?thesis
      using s_eq b1 b2 by blast
  next
    case whole
    have le: "limit \<le> (byte_len + int (length (concat sentence))) + int (length (concat (concat ss)))"
      using Cons.prems(4) by simp
    from Cons.IH [OF rest ne_rest whole le, of "acc @ [sentence]"]
    obtain before s after pre w post where d_eq: "ss = before @ s # after"
      and s_eq: "s = pre @ w # post"
      and b1: "byte_len + int (length (concat sentence))
                 + int (length (concat (concat (before @ [pre])))) < limit"
      and b2: "limit \<le> byte_len + int (length (concat sentence))
                 + int (length (concat (concat (before @ [pre])))) + int (length w)"
      and res: "truncate_bytes_loop limit (byte_len + int (length (concat sentence)))
                  (acc @ [sentence]) ss
               = Inr ((acc @ [sentence]) @ before @
                   [pre @ [take (nat (limit - (byte_len + int (length (concat sentence)))
                                      - int (length (concat (concat (before @ [pre])))))) w]])"
      by blast
    have "sentence # ss = (sentence # before) @ s # after"
      using d_eq by simp
    moreover have "byte_len + int (length (concat (concat ((sentence # before) @ [pre])))) < limit"
      using b1 by simp
    moreover have "limit \<le> byte_len + int (length (concat (concat ((sentence # before) @ [pre]))))
                       + int (length w)"
      using b2 by simp
    moreover have "truncate_bytes_loop limit byte_len acc (sentence # ss)
               = Inr (acc @ (sentence # before) @
                   [pre @ [take (nat (limit - byte_len
                              - int (length (concat (concat ((sentence # before) @ [pre])))))) w]])"
      using truncate_bytes_loop_whole [OF enc whole, of acc ss] res
      by (simp add: algebra_simps)
    ultimately show ?thesis
      using s_eq by blast
  qed
qed


lemma truncate_bytes_loop_below:
  assumes "ascii_doc d" and "byte_len + int (length (concat (concat d))) < limit"
  shows "truncate_bytes_loop limit byte_len acc d = Inr (acc @ d)"
  using assms
proof (induction d arbitrary: byte_len acc)
  case Nil
  show ?case by simp
next
  case (Cons sentence ss)
  then have sent: "list_all ascii sentence" and rest: "ascii_doc ss" by simp_all
  have enc: "utf8_encode (concat sentence) = Some (concat sentence)"
    using sent by (simp add: utf8_encode_ascii ascii_concat)
  have whole: "byte_len + int (length (concat sentence)) < limit"
    using Cons.prems(2) by simp
  have "(byte_len + int (length (concat sentence))) + int (length (concat (concat ss))) < limit"
    using Cons.prems(2) by simp
  from Cons.IH [OF rest this, of "acc @ [sentence]"]
  show ?case
    using truncate_bytes_loop_whole [OF enc whole, of acc ss] by simp
qed

lemma tokenize_text_total:
  assumes "ascii_preserving t"
  shows "\<exists>d. tokenize_text t text = Inr d \<and> ascii_doc d"
proof -
  have raw: "ascii_doc (untruncated t text)"
    using assms by (rule ascii_untruncated)
  obtain d0 where d0: "(if byte_limit t \<noteq> 0 then truncate_bytes t (untruncated t text)
                        else Inr (untruncated t text)) = Inr d0" and a0: "ascii_doc d0"
    using truncate_bytes_loop_ascii [OF raw, of "[]" "byte_limit t" 0] raw
    by (cases "byte_limit t = 0") (auto simp: truncate_bytes_def)
  have "tokenize_text t text = Inr (if word_limit t \<noteq> 0 then truncate_words t d0 else d0)"
    using d0 by (simp add: tokenize_text_def)
  moreover have "ascii_doc (if word_limit t \<noteq> 0 then truncate_words t d0 else d0)"
    using a0 by (simp add: ascii_truncate_words)
  ultimately show ?thesis by blast
qed

text \<open>
  The slice is safe because the tokens are ASCII. \<open>_truncate_bytes\<close> slices the encoded
  bytes and decodes strictly: on a Document that no text tokenizes to, whose token holds the
  two-byte character U+00E9 across the limit, decoding fails.
\<close>

lemma truncate_bytes_needs_ascii_tokens:
  "utf8_encode [233] = Some [195, 169]
   \<and> truncate_bytes (plain_tokenizer 1 0) [[[233]]] = Inl UnicodeDecodeError"
  by (simp add: tokenizer_eval)

section \<open>The claims\<close>

subsection \<open>C1\<close>

text \<open>
  Claim C1, at the inputs where the code departs from it. With the reference \<open>"a b"\<close>
  and the text \<open>"a b"\<close> fed as one increment, the incremental recall for \<open>n = 1\<close> is 1/2,
  while \<open>n_score\<close> with scoring \<open>"A"\<close> gives recall 1: only the n-gram of the last
  \<open>n\<close> tokens of the buffer is looked up. With the reference \<open>"a"\<close> and the text \<open>"a a"\<close>
  fed as \<open>"a "\<close> and \<open>"a"\<close>, the incremental recalls are 1 and 1, sum 2, while
  \<open>n_score\<close> gives recall 1: the incremental path tests membership, the batch path takes
  the minimum of the two counts.
\<close>

theorem incremental_sum_is_not_batch_recall:
  "incremental_session (plain_rouge 1 ''A'') [str_of ''a b''] [str_of ''a b'']
     = Inr [[(1, Some (1 / 2))]]
   \<and> n_score (plain_rouge 1 ''A'') [str_of ''a b''] (str_of ''a b'')
     = Inr [(1, \<lparr>recall = 1, precision = 1, fscore = 1\<rparr>)]
   \<and> incremental_session (plain_rouge 1 ''A'') [str_of ''a''] [str_of ''a '', str_of ''a'']
     = Inr [[(1, Some 1)], [(1, Some 1)]]
   \<and> n_score (plain_rouge 1 ''A'') [str_of ''a''] (str_of ''a a'')
     = Inr [(1, \<lparr>recall = 1, precision = 1 / 2, fscore = 66667 / 100000\<rparr>)]"
proof -
  have counts: "per_reference (Suc 0) [[[97], [98]]] [[[[97], [98]]]] = [(2, 2, 2)]"
    by (simp add: scorer_eval)
  have batch: "n_score (plain_rouge 1 ''A'') [str_of ''a b''] (str_of ''a b'')
     = Inr [(1, \<lparr>recall = 1, precision = 1, fscore = 1\<rparr>)]"
    using counts
    by (simp add: n_score_def n_score_n_def tokens_eval ratios_def round5_eval)
  have inc: "incremental_session (plain_rouge 1 ''A'') [str_of ''a b''] [str_of ''a b'']
     = Inr [[(1, Some (1 / 2))]]"
    by (simp add: incremental_session_def tokens_eval scorer_eval)
  have counts2: "per_reference (Suc 0) [[[97], [97]]] [[[[97]]]] = [(2, 1, 1)]"
    by (simp add: scorer_eval)
  have batch2: "n_score (plain_rouge 1 ''A'') [str_of ''a''] (str_of ''a a'')
     = Inr [(1, \<lparr>recall = 1, precision = 1 / 2, fscore = 66667 / 100000\<rparr>)]"
    using counts2
    by (simp add: n_score_def n_score_n_def tokens_eval ratios_def round5_eval)
  have inc2: "incremental_session (plain_rouge 1 ''A'') [str_of ''a''] [str_of ''a '', str_of ''a'']
     = Inr [[(1, Some 1)], [(1, Some 1)]]"
    by (simp add: incremental_session_def tokens_eval scorer_eval)
  show ?thesis using inc batch inc2 batch2 by simp
qed

subsection \<open>C2\<close>

text \<open>
  Claim C2, at an input where the code departs from it. After a reset with \<open>N = 1\<close>, the
  increment \<open>"a b"\<close> appends two tokens to the buffer, which becomes \<open>["", "a", "b"]\<close>.
  The n-grams the code looks up for \<open>n = 1\<close> are the windows of the last \<open>n\<close> tokens:
  the single unigram \<open>"b"\<close>. The windows of the last \<open>len(new_tokens)+n-1 = 2\<close> tokens
  would be \<open>"a"\<close> and \<open>"b"\<close>.
\<close>

theorem two_token_increment_yields_one_ngram:
  "\<exists>r results r' st.
     reset_incremental (plain_rouge 1 ''A'') [str_of ''a b''] = Inr r
     \<and> n_score_incremental r (str_of ''a b'') = Inr (results, r')
     \<and> incremental r' = Some st
     \<and> prev_tokens st = [[], [97], [98]]
     \<and> new_ngrams st 1 = [[98]]
     \<and> ngram_tokenize [py_last_n (2 + 1 - 1) (prev_tokens st)] 1 = [[97], [98]]"
  by (simp add: tokens_eval scorer_eval)

subsection \<open>C3\<close>

text \<open>
  Claim C3, amended. When the text has tokens and the incremental state holds, for every
  \<open>n\<close> from 1 to \<open>N\<close>, the reference tables and a non-zero reference total, the call
  returns for every such \<open>n\<close> the recall \<open>matches / total\<close>, where \<open>matches\<close> is the sum,
  over the reference tables stored for that \<open>n\<close>, of the number of new n-grams of the
  extended buffer that are a key of that table. The test is membership, not multiplicity,
  but it is made once per table: a new n-gram adds 1 for every reference table that holds
  it, whatever its count there.
\<close>

theorem incremental_matches_per_reference_table:
  assumes "tokenizer r new_text = Inr d" and "concat d \<noteq> []" and "incremental r = Some st0"
    and "\<forall>n \<in> {1 .. N r}. ref_counters st0 n = Some (counters n)
            \<and> refs_count st0 n = Some (totals n) \<and> totals n \<noteq> 0"
  shows "n_score_incremental r new_text =
     Inr (map (\<lambda>n. (n, Some (of_nat (sum_list (map (\<lambda>ref_counter.
                     length (filter (\<lambda>ngram. counter_mem ngram ref_counter)
                       (new_ngrams (st0\<lparr>prev_tokens := prev_tokens st0 @ concat d\<rparr>) n)))
                   (counters n))) / of_nat (totals n))))
            [1 ..< N r + 1],
          r\<lparr>incremental := Some (st0\<lparr>prev_tokens := prev_tokens st0 @ concat d\<rparr>)\<rparr>)"
proof -
  let ?st = "st0\<lparr>prev_tokens := prev_tokens st0 @ concat d\<rparr>"
  have "\<forall>n \<in> set [1 ..< N r + 1]. ref_counters ?st n = Some (counters n)
            \<and> refs_count ?st n = Some (totals n) \<and> totals n \<noteq> 0"
    using assms(4) by auto
  from n_score_incremental_loop_value [OF this]
  show ?thesis
    using assms(1,2,3) by (simp add: n_score_incremental_def Let_def)
qed

text \<open>
  The statement after a reset on the references \<open>"a"\<close> and \<open>"a b"\<close>, for the increment
  \<open>"a"\<close>: both tables hold \<open>"a"\<close>, the total is 3 and the recall returned is 2/3.
\<close>

theorem incremental_matches_per_reference_table_witness:
  "\<exists>r st0. reset_incremental (plain_rouge 1 ''A'') [str_of ''a'', str_of ''a b''] = Inr r
     \<and> incremental r = Some st0
     \<and> tokenizer r (str_of ''a'') = Inr [[[97]]]
     \<and> ref_counters st0 1 = Some [[([97], 1)], [([97], 1), ([98], 1)]]
     \<and> refs_count st0 1 = Some 3
     \<and> new_ngrams (st0\<lparr>prev_tokens := prev_tokens st0 @ [[97]]\<rparr>) 1 = [[97]]
     \<and> n_score_incremental r (str_of ''a'')
         = Inr ([(1, Some (2 / 3))], r\<lparr>incremental := Some (st0\<lparr>prev_tokens := prev_tokens st0 @ [[97]]\<rparr>)\<rparr>)"
proof -
  have "\<exists>st0. reset_loop (tokenize_text (plain_tokenizer 0 0)) [str_of ''a'', str_of ''a b'']
               \<lparr>ref_counters = Map.empty, refs_count = Map.empty, prev_tokens = replicate 1 []\<rparr>
               [1 ..< 1 + 1] = Inr st0
     \<and> ref_counters st0 1 = Some [[([97], 1)], [([97], 1), ([98], 1)]]
     \<and> refs_count st0 1 = Some 3
     \<and> prev_tokens st0 = [[]]"
    by (simp add: tokens_eval scorer_eval)
  then obtain st0 where
    loop: "reset_loop (tokenize_text (plain_tokenizer 0 0)) [str_of ''a'', str_of ''a b'']
               \<lparr>ref_counters = Map.empty, refs_count = Map.empty, prev_tokens = replicate 1 []\<rparr>
               [1 ..< 1 + 1] = Inr st0"
    and cs: "ref_counters st0 1 = Some [[([97], 1)], [([97], 1), ([98], 1)]]"
    and ms: "refs_count st0 1 = Some 3"
    and buf: "prev_tokens st0 = [[]]"
    by blast
  have reset: "reset_incremental (plain_rouge 1 ''A'') [str_of ''a'', str_of ''a b'']
               = Inr ((plain_rouge 1 ''A'')\<lparr>incremental := Some st0\<rparr>)"
    using loop by (simp add: reset_incremental_def)
  let ?r = "(plain_rouge 1 ''A'')\<lparr>incremental := Some st0\<rparr>"
  have tok: "tokenizer ?r (str_of ''a'') = Inr [[[97]]]"
    by (simp add: tokens_eval)
  have ne: "concat [[[97::nat]]] \<noteq> []" by simp
  have inc: "incremental ?r = Some st0" by simp
  have tabs: "\<forall>n \<in> {1 .. N ?r}.
      ref_counters st0 n = Some ((\<lambda>_. [[([97], 1)], [([97], 1), ([98], 1)]]) n)
      \<and> refs_count st0 n = Some ((\<lambda>_. 3) n) \<and> (\<lambda>_. 3::nat) n \<noteq> 0"
    using cs ms by simp
  have ng: "new_ngrams (st0\<lparr>prev_tokens := prev_tokens st0 @ [[97]]\<rparr>) 1 = [[97]]"
    using buf by (simp add: new_ngrams_def ngram_tokenize_def py_last_n_def)
  from incremental_matches_per_reference_table [OF tok ne inc tabs]
  have "n_score_incremental ?r (str_of ''a'')
         = Inr ([(1, Some (2 / 3))], ?r\<lparr>incremental := Some (st0\<lparr>prev_tokens := prev_tokens st0 @ [[97]]\<rparr>)\<rparr>)"
    using ng by (simp add: counter_mem_def counter_keys_def)
  then show ?thesis
    using reset tok cs ms ng inc by (intro exI [of _ ?r] exI [of _ st0]) simp
qed

text \<open>
  Counterexample to C3 as first stated. With the references \<open>"a"\<close> and \<open>"a b"\<close> and the
  increment \<open>"a"\<close>, the new unigram \<open>"a"\<close> is a key of both reference tables and
  counts 2, so the recall returned is 2/3; membership in the union of the tables would
  count it once.
\<close>

theorem match_counted_once_per_reference_table:
  "\<exists>r r' st counters.
     reset_incremental (plain_rouge 1 ''A'') [str_of ''a'', str_of ''a b''] = Inr r
     \<and> n_score_incremental r (str_of ''a'') = Inr ([(1, Some (2 / 3))], r')
     \<and> incremental r' = Some st
     \<and> new_ngrams st 1 = [[97]]
     \<and> ref_counters st 1 = Some counters
     \<and> refs_count st 1 = Some 3
     \<and> count_matches counters (new_ngrams st 1) = 2
     \<and> spec_union_matches counters (new_ngrams st 1) = 1"
  by (simp add: tokens_eval scorer_eval spec_union_matches_def)

subsection \<open>C4\<close>

text \<open>
  Claim C4, at an input where the code departs from it. With scoring \<open>"B"\<close> and a
  reference whose token stream is empty, the key \<open>x[2]/x[1]\<close> of \<open>max\<close> divides by the
  reference count 0 and \<open>n_score\<close> raises \<open>ZeroDivisionError\<close>. With scoring \<open>"A"\<close> the
  same call returns recall, precision and F-score 0.
\<close>

theorem best_mode_raises_on_empty_reference:
  "n_score (plain_rouge 1 ''B'') [str_of ''''] (str_of ''a'') = Inl ZeroDivisionError
   \<and> n_score (plain_rouge 1 ''A'') [str_of ''''] (str_of ''a'')
       = Inr [(1, \<lparr>recall = 0, precision = 0, fscore = 0\<rparr>)]"
proof -
  have counts: "per_reference (Suc 0) [[[97]]] [[[]]] = [(1, 0, 0)]"
    by (simp add: scorer_eval)
  have b: "n_score (plain_rouge 1 ''B'') [str_of ''''] (str_of ''a'') = Inl ZeroDivisionError"
    using counts
    by (simp add: n_score_def n_score_n_def tokens_eval max_by_key_def best_key_def)
  have a: "n_score (plain_rouge 1 ''A'') [str_of ''''] (str_of ''a'')
       = Inr [(1, \<lparr>recall = 0, precision = 0, fscore = 0\<rparr>)]"
    using counts
    by (simp add: n_score_def n_score_n_def tokens_eval ratios_def round5_eval)
  show ?thesis using a b by simp
qed

subsection \<open>C5\<close>

text \<open>
  Claim C5, amended. For every ASCII-preserving configuration with byte limit \<open>B > 0\<close> and
  no word limit, and every input text whose untruncated Document has more than \<open>B\<close>
  bytes, \<open>tokenize_text\<close> returns a Document whose tokens have exactly \<open>B\<close> bytes in
  total.
\<close>

theorem byte_truncation_exact:
  assumes "0 < byte_limit t" and "word_limit t = 0" and "ascii_preserving t"
    and "byte_total (untruncated t text) = Some n_bytes" and "byte_limit t < int n_bytes"
  shows "\<exists>d. tokenize_text t text = Inr d \<and> byte_total d = Some (nat (byte_limit t))"
proof -
  have raw: "ascii_doc (untruncated t text)"
    using assms(3) by (rule ascii_untruncated)
  have total: "n_bytes = length (concat (concat (untruncated t text)))"
    using assms(4) byte_total_ascii [OF raw] by simp
  from truncate_bytes_loop_length [OF raw, of 0 "byte_limit t" "[]"] assms(1)
  obtain d where d: "truncate_bytes_loop (byte_limit t) 0 [] (untruncated t text) = Inr d"
    and len: "int (length (concat (concat d)))
                = min (byte_limit t) (0 + int (length (concat (concat (untruncated t text)))))"
    by auto
  from truncate_bytes_loop_ascii [OF raw, of "[]" "byte_limit t" 0] d
  have ad: "ascii_doc d" by simp
  have "int (length (concat (concat d))) = byte_limit t"
    using len total assms(5) by simp
  then have "byte_total d = Some (nat (byte_limit t))"
    using byte_total_ascii [OF ad] by simp
  moreover have "tokenize_text t text = Inr d"
    using d assms(1,2) by (simp add: tokenize_text_def truncate_bytes_def)
  ultimately show ?thesis by blast
qed

text \<open>
  The statement at byte limit 3 and the text \<open>"aa bb"\<close>: 4 bytes before truncation, the
  tokens \<open>"aa"\<close> and \<open>"b"\<close> after it.
\<close>

theorem byte_truncation_exact_witness:
  "0 < byte_limit (plain_tokenizer 3 0) \<and> word_limit (plain_tokenizer 3 0) = 0
   \<and> ascii_preserving (plain_tokenizer 3 0)
   \<and> byte_total (untruncated (plain_tokenizer 3 0) (str_of ''aa bb'')) = Some 4
   \<and> byte_limit (plain_tokenizer 3 0) < int 4
   \<and> tokenize_text (plain_tokenizer 3 0) (str_of ''aa bb'') = Inr [[[97, 97], [98]]]
   \<and> byte_total [[[97, 97], [98]]] = Some (nat (byte_limit (plain_tokenizer 3 0)))"
proof -
  have a: "0 < byte_limit (plain_tokenizer 3 0)" and b: "word_limit (plain_tokenizer 3 0) = 0"
    by (simp_all add: plain_tokenizer_def)
  have c: "ascii_preserving (plain_tokenizer 3 0)"
    by (rule ascii_preserving_plain)
  have d: "byte_total (untruncated (plain_tokenizer 3 0) (str_of ''aa bb'')) = Some 4"
    by (simp add: tokenizer_eval byte_total_def)
  have e: "byte_limit (plain_tokenizer 3 0) < int 4"
    by (simp add: plain_tokenizer_def)
  have f: "tokenize_text (plain_tokenizer 3 0) (str_of ''aa bb'') = Inr [[[97, 97], [98]]]"
    by (simp add: tokenizer_eval)
  from byte_truncation_exact [OF a b c d e] f
  have "byte_total [[[97, 97], [98]]] = Some (nat (byte_limit (plain_tokenizer 3 0)))"
    by simp
  with a b c d e f show ?thesis by simp
qed

text \<open>
  Counterexample to C5 as first stated, with a word limit configured too. With byte limit 3
  and word limit 1 the text \<open>"aa bb"\<close> has 4 bytes before truncation, byte truncation
  keeps \<open>"aa"\<close> and \<open>"b"\<close>, and word truncation then keeps \<open>"aa"\<close> alone: 2 bytes,
  not 3.
\<close>

theorem word_limit_cuts_below_byte_limit:
  "untruncated (plain_tokenizer 3 1) (str_of ''aa bb'') = [[[97, 97], [98, 98]]]
   \<and> byte_total [[[97, 97], [98, 98]]] = Some 4
   \<and> tokenize_text (plain_tokenizer 3 1) (str_of ''aa bb'') = Inr [[[97, 97]]]
   \<and> byte_total [[[97, 97]]] = Some 2"
  by (simp add: tokenizer_eval byte_total_def)

subsection \<open>C6\<close>

text \<open>
  Claim C6. For every input text and every byte limit \<open>B > 0\<close>, with an ASCII-preserving
  tokenizer: \<open>_truncate_bytes\<close> returns on the tokens of the text and so does
  \<open>tokenize_text\<close>, neither raises; a text with fewer than \<open>B\<close> bytes of tokens is
  returned whole by \<open>_truncate_bytes\<close>; otherwise the Document \<open>_truncate_bytes\<close> returns is
  the sentences before the one that reaches the limit, the words of that sentence before
  the token that reaches it, and that token cut to the bytes left, \<open>B\<close> minus the \<open>m\<close>
  bytes kept so far: the slice of its encoding decodes, and the decoded token encodes to
  exactly those \<open>B - m\<close> bytes, so no character is split.
\<close>

theorem byte_truncation_decodes_safely:
  assumes "ascii_preserving t" and "0 < byte_limit t"
  shows "(\<exists>d0 d. truncate_bytes t (untruncated t text) = Inr d0 \<and> tokenize_text t text = Inr d)
     \<and> (\<forall>n. byte_total (untruncated t text) = Some n \<longrightarrow> int n < byte_limit t \<longrightarrow>
            truncate_bytes t (untruncated t text) = Inr (untruncated t text))
     \<and> (\<forall>n. byte_total (untruncated t text) = Some n \<longrightarrow> byte_limit t \<le> int n \<longrightarrow>
          (\<exists>before s after pre w post m bs w'.
              untruncated t text = before @ s # after \<and> s = pre @ w # post
            \<and> byte_total (before @ [pre]) = Some m \<and> int m < byte_limit t
            \<and> utf8_encode w = Some bs \<and> byte_limit t \<le> int m + int (length bs)
            \<and> utf8_decode (py_take (byte_limit t - int m) bs) = Some w'
            \<and> utf8_encode w' = Some (take (nat (byte_limit t) - m) bs)
            \<and> byte_total [[w']] = Some (nat (byte_limit t) - m)
            \<and> truncate_bytes t (untruncated t text) = Inr (before @ [pre @ [w']])))"
proof -
  let ?d = "untruncated t text"
  let ?B = "byte_limit t"
  have raw: "ascii_doc ?d"
    using assms(1) by (rule ascii_untruncated)
  have ne: "\<forall>s \<in> set ?d. \<forall>w \<in> set s. w \<noteq> []"
    using untruncated_nonempty by blast
  have total: "byte_total ?d = Some (length (concat (concat ?d)))"
    using raw by (rule byte_total_ascii)
  have never: "\<exists>d0 d. truncate_bytes t ?d = Inr d0 \<and> tokenize_text t text = Inr d"
    using truncate_bytes_loop_ascii [OF raw, of "[]" "byte_limit t" 0] tokenize_text_total [OF assms(1), of "text"]
    by (auto simp: truncate_bytes_def)
  have below: "truncate_bytes t ?d = Inr ?d" if "byte_total ?d = Some n" "int n < ?B" for n
    using truncate_bytes_loop_below [OF raw, of 0 "byte_limit t" "[]"] that total
    by (simp add: truncate_bytes_def)
  have cross: "\<exists>before s after pre w post m bs w'.
              ?d = before @ s # after \<and> s = pre @ w # post
            \<and> byte_total (before @ [pre]) = Some m \<and> int m < ?B
            \<and> utf8_encode w = Some bs \<and> ?B \<le> int m + int (length bs)
            \<and> utf8_decode (py_take (?B - int m) bs) = Some w'
            \<and> utf8_encode w' = Some (take (nat ?B - m) bs)
            \<and> byte_total [[w']] = Some (nat ?B - m)
            \<and> truncate_bytes t ?d = Inr (before @ [pre @ [w']])"
    if "byte_total ?d = Some n" "?B \<le> int n" for n
  proof -
    have le: "?B \<le> 0 + int (length (concat (concat ?d)))"
      using that total by simp
    from truncate_bytes_loop_cut_token [OF raw ne assms(2) le, of "[]"]
    obtain before s after pre w post where d_eq: "?d = before @ s # after"
      and s_eq: "s = pre @ w # post"
      and b1: "int (length (concat (concat (before @ [pre])))) < ?B"
      and b2: "?B \<le> int (length (concat (concat (before @ [pre])))) + int (length w)"
      and res: "truncate_bytes_loop ?B 0 [] ?d
                  = Inr (before @
                      [pre @ [take (nat (?B - int (length (concat (concat (before @ [pre])))))) w]])"
      by auto
    let ?m = "length (concat (concat (before @ [pre])))"
    let ?w' = "take (nat ?B - ?m) w"
    have parts: "ascii_doc before" "list_all ascii pre" "ascii w"
      using raw d_eq s_eq by simp_all
    have m: "byte_total (before @ [pre]) = Some ?m"
      using parts by (intro byte_total_ascii) simp
    have enc: "utf8_encode w = Some w"
      using parts(3) by (rule utf8_encode_ascii)
    have k: "nat (?B - int ?m) = nat ?B - ?m"
      using b1 by simp
    have tk: "py_take (?B - int ?m) w = ?w'"
      using b1 k by (simp add: py_take_def)
    have aw': "ascii ?w'"
      using ascii_take [OF parts(3), of "?B - int ?m"] tk by simp
    have dec: "utf8_decode (py_take (?B - int ?m) w) = Some ?w'"
      using utf8_decode_ascii [OF aw'] tk by simp
    have enc': "utf8_encode ?w' = Some ?w'"
      using aw' by (rule utf8_encode_ascii)
    have "length ?w' = nat ?B - ?m"
      using b1 b2 by simp
    then have bt: "byte_total [[?w']] = Some (nat ?B - ?m)"
      using enc' by (simp add: byte_total_def)
    have "truncate_bytes t ?d = Inr (before @ [pre @ [?w']])"
      using res k by (simp add: truncate_bytes_def)
    then show ?thesis
      using d_eq s_eq m b1 enc b2 dec enc' bt by blast
  qed
  show ?thesis
    using never below cross by blast
qed

text \<open>
  The statement at byte limit 3 and a text that starts with U+00E9: the character is
  replaced by a space, the tokens \<open>"aa"\<close> and \<open>"bb"\<close> have 4 bytes, and \<open>"bb"\<close> is cut to
  the one byte left.
\<close>

theorem byte_truncation_decodes_safely_witness:
  "ascii_preserving (plain_tokenizer 3 0) \<and> 0 < byte_limit (plain_tokenizer 3 0)
   \<and> untruncated (plain_tokenizer 3 0) [233, 97, 97, 32, 98, 98] = [[[97, 97], [98, 98]]]
   \<and> byte_total [[[97, 97], [98, 98]]] = Some 4
   \<and> truncate_bytes (plain_tokenizer 3 0) [[[97, 97], [98, 98]]] = Inr [[[97, 97], [98]]]
   \<and> tokenize_text (plain_tokenizer 3 0) [233, 97, 97, 32, 98, 98] = Inr [[[97, 97], [98]]]
   \<and> byte_total [[[98]]] = Some (nat (byte_limit (plain_tokenizer 3 0)) - 2)"
proof -
  have a: "ascii_preserving (plain_tokenizer 3 0)"
    by (rule ascii_preserving_plain)
  have b: "0 < byte_limit (plain_tokenizer 3 0)"
    by (simp add: plain_tokenizer_def)
  have u: "untruncated (plain_tokenizer 3 0) [233, 97, 97, 32, 98, 98] = [[[97, 97], [98, 98]]]"
    by (simp add: tokenizer_eval)
  have n: "byte_total [[[97, 97], [98, 98]]] = Some 4"
    by (simp add: byte_total_def utf8_encode_char_def)
  from byte_truncation_decodes_safely [OF a b, of "[233, 97, 97, 32, 98, 98]"]
  have "\<exists>d0 d. truncate_bytes (plain_tokenizer 3 0)
                  (untruncated (plain_tokenizer 3 0) [233, 97, 97, 32, 98, 98]) = Inr d0
             \<and> tokenize_text (plain_tokenizer 3 0) [233, 97, 97, 32, 98, 98] = Inr d"
    by blast
  moreover have "truncate_bytes (plain_tokenizer 3 0) [[[97, 97], [98, 98]]] = Inr [[[97, 97], [98]]]"
    by (simp add: tokenizer_eval)
  moreover have "tokenize_text (plain_tokenizer 3 0) [233, 97, 97, 32, 98, 98] = Inr [[[97, 97], [98]]]"
    by (simp add: tokenizer_eval)
  moreover have "byte_total [[[98]]] = Some (nat (byte_limit (plain_tokenizer 3 0)) - 2)"
    by (simp add: byte_total_def utf8_encode_char_def plain_tokenizer_def)
  ultimately show ?thesis
    using a b u n by simp
qed

subsection \<open>C7\<close>

text \<open>
  Claim C7. With the references \<open>"a a a a"\<close> and \<open>"a"\<close> and the candidate \<open>"a a"\<close>, no
  stemming, no stopword removal and no truncation, the unigram counts per reference are
  (candidate 2, reference 4, matches 2) and (candidate 2, reference 1, matches 1). Scoring
  \<open>"A"\<close> pools them: recall (2+1)/(4+1) = 0.6. Scoring \<open>"B"\<close> takes the reference with
  the greatest matches/reference ratio, the second one: recall 1. The two results differ.
  The whole call is evaluated for a scorer built with \<open>n = 1\<close>; the step for \<open>n = 1\<close>
  gives the same scores whatever the largest size \<open>k\<close> is.
\<close>

theorem average_and_best_differ:
  "per_reference 1 [[[97], [97]]] [[[[97], [97], [97], [97]]], [[[97]]]] = [(2, 4, 2), (2, 1, 1)]
   \<and> n_score (plain_rouge 1 ''A'') [str_of ''a a a a'', str_of ''a''] (str_of ''a a'')
       = Inr [(1, \<lparr>recall = 3 / 5, precision = 3 / 4, fscore = 66667 / 100000\<rparr>)]
   \<and> max_by_key [(2, 4, 2), (2, 1, 1)] = Inr (2, 1, 1)
   \<and> n_score (plain_rouge 1 ''B'') [str_of ''a a a a'', str_of ''a''] (str_of ''a a'')
       = Inr [(1, \<lparr>recall = 1, precision = 1 / 2, fscore = 66667 / 100000\<rparr>)]
   \<and> n_score_n (plain_rouge k ''A'') 1 [[[97], [97]]] [[[[97], [97], [97], [97]]], [[[97]]]]
       = Inr \<lparr>recall = 3 / 5, precision = 3 / 4, fscore = 66667 / 100000\<rparr>
   \<and> n_score_n (plain_rouge k ''B'') 1 [[[97], [97]]] [[[[97], [97], [97], [97]]], [[[97]]]]
       = Inr \<lparr>recall = 1, precision = 1 / 2, fscore = 66667 / 100000\<rparr>"
proof -
  have counts:
    "per_reference (Suc 0) [[[97], [97]]] [[[[97], [97], [97], [97]]], [[[97]]]] = [(2, 4, 2), (2, 1, 1)]"
    by (simp add: scorer_eval)
  have best: "max_by_key [(2, 4, 2), (2, 1, 1)] = Inr (2, 1, 1)"
    by (simp add: max_by_key_def best_key_def)
  have avg: "n_score (plain_rouge 1 ''A'') [str_of ''a a a a'', str_of ''a''] (str_of ''a a'')
       = Inr [(1, \<lparr>recall = 3 / 5, precision = 3 / 4, fscore = 66667 / 100000\<rparr>)]"
    using counts by (simp add: n_score_def n_score_n_def tokens_eval ratios_def Let_def round5_eval)
  have bst: "n_score (plain_rouge 1 ''B'') [str_of ''a a a a'', str_of ''a''] (str_of ''a a'')
       = Inr [(1, \<lparr>recall = 1, precision = 1 / 2, fscore = 66667 / 100000\<rparr>)]"
    using counts best
    by (simp add: n_score_def n_score_n_def tokens_eval ratios_def Let_def round5_eval)
  have step_avg:
    "n_score_n (plain_rouge k ''A'') 1 [[[97], [97]]] [[[[97], [97], [97], [97]]], [[[97]]]]
       = Inr \<lparr>recall = 3 / 5, precision = 3 / 4, fscore = 66667 / 100000\<rparr>"
    using counts by (simp add: n_score_n_def ratios_def Let_def round5_eval)
  have step_bst:
    "n_score_n (plain_rouge k ''B'') 1 [[[97], [97]]] [[[[97], [97], [97], [97]]], [[[97]]]]
       = Inr \<lparr>recall = 1, precision = 1 / 2, fscore = 66667 / 100000\<rparr>"
    using counts best by (simp add: n_score_n_def ratios_def Let_def round5_eval)
  show ?thesis using counts best avg bst step_avg step_bst by simp
qed

subsection \<open>C8\<close>

text \<open>
  Claim C8. For every candidate, list of references and \<open>n\<close>, the triple \<open>n_score\<close>
  records for a reference holds the candidate's number of n-grams, the reference's number
  of n-grams (repeats included) and, as match count, the sum over the n-grams present in
  both of the minimum of the two counts, which is the size of the multiset intersection.
  For \<open>n = 1\<close>, candidate \<open>"a a b"\<close> and reference \<open>"a b b"\<close> the triple is (3, 3, 2), so
  recall and precision are 2/3; \<open>n_score\<close> returns them rounded to five decimals,
  0.66667.
\<close>

theorem batch_matching_is_multiset_intersection:
  "per_reference n cand refs =
     map (\<lambda>ref. (length (ngram_tokenize cand n), length (ngram_tokenize ref n),
                  (\<Sum>g \<in> set (ngram_tokenize cand n) \<inter> set (ngram_tokenize ref n).
                      min (count_list (ngram_tokenize ref n) g)
                          (count_list (ngram_tokenize cand n) g))))
       refs
   \<and> (\<Sum>g \<in> set (ngram_tokenize cand n) \<inter> set (ngram_tokenize ref n).
         min (count_list (ngram_tokenize ref n) g) (count_list (ngram_tokenize cand n) g))
       = size (mset (ngram_tokenize cand n) \<inter># mset (ngram_tokenize ref n))
   \<and> per_reference 1 [[[97], [97], [98]]] [[[[97], [98], [98]]]] = [(3, 3, 2)]
   \<and> n_score (plain_rouge 1 ''A'') [str_of ''a b b''] (str_of ''a a b'')
       = Inr [(1, \<lparr>recall = round5 (2 / 3), precision = round5 (2 / 3),
                   fscore = round5 (2 / 3)\<rparr>)]
   \<and> round5 (2 / 3) = 66667 / 100000"
proof -
  have general: "per_reference n cand refs =
     map (\<lambda>ref. (length (ngram_tokenize cand n), length (ngram_tokenize ref n),
                  (\<Sum>g \<in> set (ngram_tokenize cand n) \<inter> set (ngram_tokenize ref n).
                      min (count_list (ngram_tokenize ref n) g)
                          (count_list (ngram_tokenize cand n) g))))
       refs"
    by (simp add: per_reference_def Let_def counter_total_generate matches_total)
  have counts: "per_reference (Suc 0) [[[97], [97], [98]]] [[[[97], [98], [98]]]] = [(3, 3, 2)]"
    by (simp add: scorer_eval)
  have score: "n_score (plain_rouge 1 ''A'') [str_of ''a b b''] (str_of ''a a b'')
       = Inr [(1, \<lparr>recall = round5 (2 / 3), precision = round5 (2 / 3),
                   fscore = round5 (2 / 3)\<rparr>)]"
    using counts
    by (simp add: n_score_def n_score_n_def tokens_eval ratios_def Let_def)
  show ?thesis
    using general counts score round5_two_thirds
    by (simp add: size_inter_mset)
qed

subsection \<open>C9\<close>

text \<open>
  Claim C9, amended. When the references tokenize, \<open>reset_incremental\<close> returns, whatever
  the incremental state was before: a buffer of exactly \<open>N\<close> empty strings; for each
  \<open>n\<close> from 1 to \<open>N\<close> the list of the references' n-gram tables and the sum of their
  totals; and no entry for any other \<open>n\<close>. Nothing of the prior state remains.
\<close>

theorem reset_incremental_rebuilds_state:
  assumes "tokenize_all (tokenizer r) ref_texts = Inr docs"
  shows "\<exists>st. reset_incremental (r\<lparr>incremental := old\<rparr>) ref_texts = Inr (r\<lparr>incremental := Some st\<rparr>)
     \<and> prev_tokens st = replicate (N r) []
     \<and> (\<forall>n. ref_counters st n =
            (if 1 \<le> n \<and> n \<le> N r
             then Some (map (\<lambda>d. generate_counter (ngram_tokenize d n)) docs) else None))
     \<and> (\<forall>n. refs_count st n =
            (if 1 \<le> n \<and> n \<le> N r
             then Some (sum_list (map (\<lambda>d. counter_total (generate_counter (ngram_tokenize d n))) docs))
             else None))"
proof -
  let ?st0 = "\<lparr>ref_counters = Map.empty, refs_count = Map.empty,
               prev_tokens = replicate (N r) []\<rparr>"
  from reset_loop_result [OF assms, of ?st0 "[1 ..< N r + 1]"] obtain st where
    st: "reset_loop (tokenizer r) ref_texts ?st0 [1 ..< N r + 1] = Inr st"
    and p: "prev_tokens st = prev_tokens ?st0"
    and c: "\<forall>n. ref_counters st n =
             (if n \<in> set [1 ..< N r + 1] then Some (map (\<lambda>d. generate_counter (ngram_tokenize d n)) docs)
              else ref_counters ?st0 n)"
    and t: "\<forall>n. refs_count st n =
             (if n \<in> set [1 ..< N r + 1]
              then Some (sum_list (map (\<lambda>d. counter_total (generate_counter (ngram_tokenize d n))) docs))
              else refs_count ?st0 n)"
    by blast
  have "reset_incremental (r\<lparr>incremental := old\<rparr>) ref_texts = Inr (r\<lparr>incremental := Some st\<rparr>)"
    using st by (simp add: reset_incremental_def)
  moreover have "prev_tokens st = replicate (N r) []"
    using p by simp
  moreover have "\<forall>n. ref_counters st n =
            (if 1 \<le> n \<and> n \<le> N r
             then Some (map (\<lambda>d. generate_counter (ngram_tokenize d n)) docs) else None)"
    using c by (auto simp: less_Suc_eq_le)
  moreover have "\<forall>n. refs_count st n =
            (if 1 \<le> n \<and> n \<le> N r
             then Some (sum_list (map (\<lambda>d. counter_total (generate_counter (ngram_tokenize d n))) docs))
             else None)"
    using t by (auto simp: less_Suc_eq_le)
  ultimately show ?thesis by blast
qed

text \<open>
  The statement at \<open>N = 2\<close>, the reference \<open>"a b"\<close> and a prior state with a buffer of
  its own.
\<close>

theorem reset_incremental_rebuilds_state_witness:
  "tokenize_all (tokenizer (plain_rouge 2 ''A'')) [str_of ''a b''] = Inr [[[[97], [98]]]]
   \<and> (\<exists>st. reset_incremental
              ((plain_rouge 2 ''A'')\<lparr>incremental := Some \<lparr>ref_counters = Map.empty,
                  refs_count = Map.empty, prev_tokens = [[97]]\<rparr>\<rparr>) [str_of ''a b'']
            = Inr ((plain_rouge 2 ''A'')\<lparr>incremental := Some st\<rparr>)
          \<and> prev_tokens st = [[], []]
          \<and> ref_counters st 2 = Some [[([97, 32, 98], 1)]]
          \<and> refs_count st 1 = Some 2
          \<and> ref_counters st 3 = None)"
proof -
  have tok: "tokenize_all (tokenizer (plain_rouge 2 ''A'')) [str_of ''a b''] = Inr [[[[97], [98]]]]"
    by (simp add: tokens_eval)
  from reset_incremental_rebuilds_state [OF tok,
      of "Some \<lparr>ref_counters = Map.empty, refs_count = Map.empty, prev_tokens = [[97]]\<rparr>"]
  obtain st where
    "reset_incremental
       ((plain_rouge 2 ''A'')\<lparr>incremental := Some \<lparr>ref_counters = Map.empty,
            refs_count = Map.empty, prev_tokens = [[97]]\<rparr>\<rparr>) [str_of ''a b'']
     = Inr ((plain_rouge 2 ''A'')\<lparr>incremental := Some st\<rparr>)"
    and "prev_tokens st = replicate (N (plain_rouge 2 ''A'')) []"
    and c: "\<forall>n. ref_counters st n =
            (if 1 \<le> n \<and> n \<le> N (plain_rouge 2 ''A'')
             then Some (map (\<lambda>d. generate_counter (ngram_tokenize d n)) [[[[97], [98]]]]) else None)"
    and t: "\<forall>n. refs_count st n =
            (if 1 \<le> n \<and> n \<le> N (plain_rouge 2 ''A'')
             then Some (sum_list (map (\<lambda>d. counter_total (generate_counter (ngram_tokenize d n))) [[[[97], [98]]]]))
             else None)"
    by blast
  moreover have "ref_counters st 2 = Some [[([97, 32, 98], 1)]]"
    using c by (simp add: generate_counter_def ngram_tokenize_def)
  moreover have "refs_count st 1 = Some 2"
    using t by (simp add: generate_counter_def ngram_tokenize_def counter_total_def)
  moreover have "ref_counters st 3 = None"
    using c by simp
  ultimately show ?thesis using tok by (auto simp: numeral_2_eq_2)
qed

text \<open>
  Counterexample to C9 as first stated. With \<open>N = 2\<close> the buffer after a reset holds two
  empty strings, not \<open>N - 1 = 1\<close>.
\<close>

theorem reset_buffer_holds_N_placeholders:
  "\<exists>r st.
     reset_incremental (plain_rouge 2 ''A'') [str_of ''a''] = Inr r
     \<and> incremental r = Some st
     \<and> prev_tokens st = [[], []]
     \<and> length (prev_tokens st) \<noteq> 2 - 1"
  by (simp add: tokens_eval scorer_eval numeral_2_eq_2 numeral_3_eq_3)

subsection \<open>C10\<close>

text \<open>
  Claim C10, amended. For every input string and every configuration whose byte limit is
  not negative (any stemmer, stopword remover, sentence splitter and word limit), every
  token of every sentence of the Document \<open>tokenize_text\<close> returns is a non-empty string.
\<close>

theorem tokens_nonempty:
  assumes "0 \<le> byte_limit t" and "tokenize_text t text = Inr d"
  shows "\<forall>s \<in> set d. \<forall>w \<in> set s. w \<noteq> []"
proof -
  have raw: "\<forall>s \<in> set (untruncated t text). \<forall>w \<in> set s. w \<noteq> []"
    using untruncated_nonempty by blast
  obtain d0 where d0: "(if byte_limit t \<noteq> 0 then truncate_bytes t (untruncated t text)
                        else Inr (untruncated t text)) = Inr d0"
    and d: "d = (if word_limit t \<noteq> 0 then truncate_words t d0 else d0)"
    using assms(2) by (auto simp: tokenize_text_def split: sum.splits)
  have ne0: "\<forall>s \<in> set d0. \<forall>w \<in> set s. w \<noteq> []"
  proof (cases "byte_limit t = 0")
    case True
    with d0 raw show ?thesis by simp
  next
    case False
    with d0 have "truncate_bytes_loop (byte_limit t) 0 [] (untruncated t text) = Inr d0"
      by (simp add: truncate_bytes_def)
    moreover have "0 < byte_limit t"
      using False assms(1) by simp
    ultimately show ?thesis
      using truncate_bytes_loop_nonempty [of "byte_limit t" 0 "[]" "untruncated t text" d0] raw
      by simp
  qed
  show ?thesis
  proof (cases "word_limit t = 0")
    case True
    with d ne0 show ?thesis by simp
  next
    case False
    with d have "d = truncate_words t d0" by simp
    then show ?thesis
      using ne0 truncate_words_tokens by blast
  qed
qed

text \<open>
  The statement at byte limit 3, word limit 1 and the text \<open>"aa bb"\<close>.
\<close>

theorem tokens_nonempty_witness:
  "0 \<le> byte_limit (plain_tokenizer 3 1)
   \<and> tokenize_text (plain_tokenizer 3 1) (str_of ''aa bb'') = Inr [[[97, 97]]]
   \<and> [97, 97] \<noteq> ([] :: nat list)"
proof -
  have a: "0 \<le> byte_limit (plain_tokenizer 3 1)"
    by (simp add: plain_tokenizer_def)
  have b: "tokenize_text (plain_tokenizer 3 1) (str_of ''aa bb'') = Inr [[[97, 97]]]"
    by (simp add: tokenizer_eval)
  from tokens_nonempty [OF a b] have "[97, 97] \<noteq> ([] :: nat list)"
    by simp
  with a b show ?thesis by simp
qed

text \<open>
  Counterexample to C10 as first stated, for a negative byte limit. With byte limit \<open>-1\<close>
  the text \<open>"a"\<close> gives the Document \<open>[[""]]\<close>, since the slice \<open>[:-1]\<close> of the one
  byte of \<open>"a"\<close> is empty.
\<close>

theorem negative_byte_limit_emits_empty_token:
  "tokenize_text (plain_tokenizer (- 1) 0) (str_of ''a'') = Inr [[[]]]"
  by (simp add: tokenizer_eval)

end
